theory Spec2Isabelle
  imports Main "HOL-Library.Word" "HOL-Library.Monad_Syntax"
begin

section \<open>The growable buffer of cvec.h\<close>

text \<open>
  The header keeps a vector in one heap block: the metadata struct followed by the element
  storage. The model keeps the fields of the struct, the address the caller holds and the
  bytes of the storage region in one record. All counters are \<open>uint64\<close> as in the source, so
  every product and sum below wraps modulo \<open>2 ^ 64\<close>; \<open>size_t\<close> is taken to be 64 bits wide
  and \<open>sizeof(_internal_cvec_metadata)\<close> to be 32 (three \<open>uint64\<close> and one pointer).

  C gives no meaning to an access outside the block. Every operation therefore returns an
  \<open>option\<close>: \<open>None\<close> stands for an execution with undefined behaviour (a write or read that
  leaves the storage, a pointer formed outside it, a null pointer returned by the allocator and
  then used), \<open>Some\<close> carries the calls made to the allocator and to the element destructor, in
  order, together with the result.
\<close>

type_synonym byte = "8 word"
type_synonym uint64 = "64 word"

text \<open>
  \<open>typedef void (*cvec_elem_destructor)(void* elem)\<close>: the callback receives a pointer to one
  element and may write to it. It is modelled by the bytes it leaves in the element, as a
  function of the bytes it finds there.
\<close>

type_synonym cvec_elem_destructor = "byte list \<Rightarrow> byte list"

text \<open>
  The calls an operation makes to its environment: \<open>malloc\<close> (with the size requested),
  \<open>realloc\<close> (with the block passed and the size requested), the destructor (with the bytes
  of the element it is pointed at) and \<open>free\<close> (with the block passed).
\<close>

datatype event =
    Malloc_call uint64
  | Realloc_call uint64 uint64
  | Destructor_call "byte list"
  | Free_call uint64

text \<open>
  The fields \<open>size\<close>, \<open>capacity\<close>, \<open>typesize\<close> and \<open>destructor\<close> of
  \<open>_internal_cvec_metadata\<close> (\<open>size\<close> is written \<open>size_f\<close> here), the address of the
  storage, which is the handle, and the bytes stored there.
\<close>

record cvec =
  size_f :: uint64
  capacity :: uint64
  typesize :: uint64
  destructor :: "cvec_elem_destructor option"
  addr :: uint64
  data :: "byte list"

text \<open>A handle is the \<open>void*\<close> the caller holds: null, or a pointer to the storage of a block.\<close>

datatype handle = Null | Vec cvec

definition sizeof_metadata :: uint64 where
  "sizeof_metadata = 32"

subsection \<open>Memory primitives\<close>

text \<open>
  The storage region is addressed by byte offset from the handle. A store of the bytes \<open>xs\<close>
  at offset \<open>off\<close> must lie inside the region as a whole, also when \<open>xs\<close> is empty, since
  the pointer argument itself has to be valid. \<open>memset\<close>, \<open>memcpy\<close> and \<open>memmove\<close> are
  stores of the bytes they write; the two copies also read their source in range.
\<close>

definition store_bytes :: "byte list \<Rightarrow> nat \<Rightarrow> byte list \<Rightarrow> byte list option" where
  "store_bytes mem off xs =
     (if off + length xs \<le> length mem
      then Some (take off mem @ xs @ drop (off + length xs) mem)
      else None)"

definition memset_bytes :: "byte list \<Rightarrow> nat \<Rightarrow> byte \<Rightarrow> nat \<Rightarrow> byte list option" where
  "memset_bytes mem off c n = store_bytes mem off (replicate n c)"

definition memcpy_bytes :: "byte list \<Rightarrow> nat \<Rightarrow> byte list \<Rightarrow> nat \<Rightarrow> byte list option" where
  "memcpy_bytes mem off src n =
     (if n \<le> length src then store_bytes mem off (take n src) else None)"

definition memmove_bytes :: "byte list \<Rightarrow> nat \<Rightarrow> nat \<Rightarrow> nat \<Rightarrow> byte list option" where
  "memmove_bytes mem dst src n =
     (if src + n \<le> length mem then store_bytes mem dst (take n (drop src mem)) else None)"

text \<open>
  \<open>realloc\<close> keeps the old bytes up to the new length; the bytes beyond them are whatever
  the allocator hands out, given here by \<open>fresh\<close> as a function of the offset.
\<close>

definition realloc_bytes :: "(nat \<Rightarrow> byte) \<Rightarrow> byte list \<Rightarrow> nat \<Rightarrow> byte list" where
  "realloc_bytes fresh mem n = take n mem @ map fresh [length mem ..< n]"

record realloc_env =
  realloc_result :: uint64
  realloc_fresh :: "nat \<Rightarrow> byte"

text \<open>
  \<open>destructor(data + off)\<close>: the callback sees the \<open>n\<close> bytes of the element and its result
  overwrites them (a result shorter than the element leaves the remaining bytes as they were,
  a longer one is cut to the element).
\<close>

definition call_destructor ::
  "cvec_elem_destructor \<Rightarrow> byte list \<Rightarrow> nat \<Rightarrow> nat \<Rightarrow> (event \<times> byte list) option" where
  "call_destructor f mem off n =
     (if off + n \<le> length mem
      then (let el = take n (drop off mem)
            in map_option (Pair (Destructor_call el))
                 (store_bytes mem off (take n (f el) @ drop (length (f el)) el)))
      else None)"

subsection \<open>Accessors\<close>

definition cvec_get_capacity :: "handle \<Rightarrow> uint64" where
  "cvec_get_capacity vec = (case vec of Null \<Rightarrow> 0 | Vec meta \<Rightarrow> capacity meta)"

definition cvec_get_sz :: "handle \<Rightarrow> uint64" where
  "cvec_get_sz vec = (case vec of Null \<Rightarrow> 0 | Vec meta \<Rightarrow> size_f meta)"

definition cvec_get_type_sz :: "handle \<Rightarrow> uint64" where
  "cvec_get_type_sz vec = (case vec of Null \<Rightarrow> 0 | Vec meta \<Rightarrow> typesize meta)"

definition cvec_empty :: "handle \<Rightarrow> 32 word" where
  "cvec_empty vec = (if cvec_get_sz vec = 0 then 1 else 0)"

subsection \<open>Creation\<close>

text \<open>
  \<open>cvec_reserve\<close>; \<open>p\<close> is what \<open>malloc\<close> returns. The block is zeroed as a whole, so its
  former content does not matter. A block shorter than the metadata cannot hold the fields
  written next.
\<close>

definition cvec_reserve ::
  "uint64 \<Rightarrow> uint64 \<Rightarrow> uint64 \<Rightarrow> cvec_elem_destructor option \<Rightarrow> (event list \<times> handle) option" where
  "cvec_reserve p capacity_arg elem_sz destructor_arg =
     (let new_allocated_size = sizeof_metadata + capacity_arg * elem_sz
      in if p = 0 \<or> new_allocated_size < sizeof_metadata then None
         else Some ([Malloc_call new_allocated_size],
                Vec \<lparr> size_f = 0, capacity = capacity_arg, typesize = elem_sz,
                      destructor = destructor_arg, addr = p + sizeof_metadata,
                      data = replicate (unat new_allocated_size - unat sizeof_metadata) 0 \<rparr>))"

definition cvec_create ::
  "uint64 \<Rightarrow> uint64 \<Rightarrow> cvec_elem_destructor option \<Rightarrow> (event list \<times> handle) option" where
  "cvec_create p elem_sz destructor_arg = cvec_reserve p 1 elem_sz destructor_arg"

subsection \<open>Append\<close>

text \<open>
  \<open>cvec_push_back\<close>. \<open>elem\<close> is the memory the second argument points to, a buffer apart from
  the vector. The growth branch follows the source line by line: the block is reallocated, the
  handle is recomputed, \<open>memset\<close> is called at byte offset \<open>capacity\<close> from the handle with
  length \<open>(new_capacity - capacity) * elem_sz\<close>, and the capacity field is written.
  A reallocated block shorter than the metadata cannot hold the fields written next. With
  elements of width 0 and a capacity of at least 1 the pointer \<open>(uint8*)vec + capacity\<close>
  already lies beyond the end of the block, so that growth step has no defined behaviour.
\<close>

definition cvec_push_back ::
  "realloc_env \<Rightarrow> handle \<Rightarrow> byte list \<Rightarrow> (event list \<times> handle) option" where
  "cvec_push_back env vec elem =
     (case vec of
        Null \<Rightarrow> Some ([], Null)
      | Vec meta \<Rightarrow>
          (let sz = size_f meta; cap = capacity meta; elem_sz = typesize meta
           in do {
             (evs, meta1) \<leftarrow>
               (if cap = sz then
                  (let new_capacity = (if cap = 0 then 1 else cap * 2);
                       new_total = sizeof_metadata + new_capacity * elem_sz
                   in if realloc_result env = 0 \<or> new_total < sizeof_metadata then None
                      else do {
                        mem \<leftarrow> memset_bytes
                                 (realloc_bytes (realloc_fresh env) (data meta)
                                    (unat new_total - unat sizeof_metadata))
                                 (unat cap) 0 (unat ((new_capacity - cap) * elem_sz));
                        Some ([Realloc_call (addr meta - sizeof_metadata) new_total],
                              meta \<lparr> addr := realloc_result env + sizeof_metadata,
                                     data := mem, capacity := new_capacity \<rparr>)
                      })
                else Some ([], meta));
             mem \<leftarrow> memcpy_bytes (data meta1) (unat (sz * elem_sz)) elem (unat elem_sz);
             Some (evs, Vec (meta1 \<lparr> data := mem, size_f := size_f meta1 + 1 \<rparr>))
           }))"

subsection \<open>Erase\<close>

definition cvec_erase :: "handle \<Rightarrow> uint64 \<Rightarrow> (event list \<times> handle) option" where
  "cvec_erase vec index =
     (case vec of
        Null \<Rightarrow> Some ([], Null)
      | Vec meta \<Rightarrow>
          (let sz = size_f meta; elem_sz = typesize meta
           in if index \<ge> sz then Some ([], Vec meta)
              else do {
                (evs, mem1) \<leftarrow>
                  (case destructor meta of
                     None \<Rightarrow> Some ([], data meta)
                   | Some f \<Rightarrow> do {
                       (ev, mem) \<leftarrow> call_destructor f (data meta)
                                      (unat (index * elem_sz)) (unat elem_sz);
                       Some ([ev], mem)
                     });
                mem2 \<leftarrow> memmove_bytes mem1 (unat (index * elem_sz))
                          (unat ((index + 1) * elem_sz))
                          (unat ((sz - (index + 1)) * elem_sz));
                Some (evs, Vec (meta \<lparr> data := mem2, size_f := size_f meta - 1 \<rparr>))
              }))"

subsection \<open>Teardown\<close>

text \<open>The loop \<open>for (uint64 i = 0; i < sz; i++) destructor(data + i*elem_sz)\<close>.\<close>

function free_loop ::
  "cvec_elem_destructor \<Rightarrow> uint64 \<Rightarrow> uint64 \<Rightarrow> uint64 \<Rightarrow> byte list \<Rightarrow> event list
     \<Rightarrow> (event list \<times> byte list) option" where
  "free_loop f elem_sz sz i mem evs =
     (if i < sz then
        (case call_destructor f mem (unat (i * elem_sz)) (unat elem_sz) of
           None \<Rightarrow> None
         | Some (ev, mem') \<Rightarrow> free_loop f elem_sz sz (i + 1) mem' (evs @ [ev]))
      else Some (evs, mem))"
  by pat_completeness auto
termination
proof (relation "measure (\<lambda>(f, elem_sz, sz, i, mem, evs). unat sz - unat i)")
  show "wf (measure (\<lambda>(f, elem_sz, sz, i, mem, evs). unat sz - unat i))"
    by simp
next
  fix f :: cvec_elem_destructor and elem_sz sz i :: uint64
    and mem :: "byte list" and evs :: "event list"
    and x2 :: "event \<times> byte list" and x y
  assume lt: "i < sz"
  have "unat (i + 1) = Suc (unat i)"
    using lt by unat_arith
  moreover have "unat i < unat sz"
    using lt by (simp add: word_less_nat_alt)
  ultimately show
    "((f, elem_sz, sz, i + 1, y, evs @ [x]), (f, elem_sz, sz, i, mem, evs))
       \<in> measure (\<lambda>(f, elem_sz, sz, i, mem, evs). unat sz - unat i)"
    by simp
qed

declare free_loop.simps [simp del]

text \<open>
  \<open>cvec_free\<close>: the destructor, when set, runs over the live elements, then the block (which
  starts at the metadata, \<open>sizeof_metadata\<close> bytes before the handle) is released.
\<close>

definition cvec_free :: "handle \<Rightarrow> event list option" where
  "cvec_free vec =
     (case vec of
        Null \<Rightarrow> Some []
      | Vec meta \<Rightarrow>
          (let sz = size_f meta; elem_sz = typesize meta
           in do {
             (evs, mem) \<leftarrow>
               (case destructor meta of
                  None \<Rightarrow> Some ([], data meta)
                | Some f \<Rightarrow> free_loop f elem_sz sz 0 (data meta) []);
             Some (evs @ [Free_call (addr meta - sizeof_metadata)])
           }))"

subsection \<open>What a caller observes\<close>

text \<open>
  The element at index \<open>i\<close>, as the caller reads it through the handle cast to the element
  type: the \<open>typesize\<close> bytes at offset \<open>i * typesize\<close>.
\<close>

definition elem_at :: "cvec \<Rightarrow> nat \<Rightarrow> byte list" where
  "elem_at meta i =
     take (unat (typesize meta)) (drop (i * unat (typesize meta)) (data meta))"

text \<open>
  A block is well formed when its storage holds exactly \<open>capacity\<close> slots of \<open>typesize\<close>
  bytes, the block as a whole fits the address space, and no more slots are live than exist.
  This is the state of every block the operations themselves produce: \<open>cvec_reserve\<close>
  establishes it when its request does not wrap (\<open>reserve_wf\<close>), and every append and
  erasure with defined behaviour keeps it (\<open>run_operations_wf\<close>).
\<close>

definition cvec_wf :: "cvec \<Rightarrow> bool" where
  "cvec_wf meta \<longleftrightarrow>
     unat (size_f meta) \<le> unat (capacity meta) \<and>
     length (data meta) = unat (capacity meta) * unat (typesize meta) \<and>
     32 + length (data meta) < 2 ^ 64"

subsection \<open>Sequences of operations\<close>

text \<open>
  A caller's use of one vector after its creation: a list of appends (each with what the
  allocator would answer if asked, and the element to append) and erasures, run in order. The
  run stops with \<open>None\<close> at the first operation whose behaviour is undefined.
\<close>

datatype operation = Push_back realloc_env "byte list" | Erase uint64

fun apply_operation :: "handle \<Rightarrow> operation \<Rightarrow> handle option" where
  "apply_operation h (Push_back env elem) = map_option snd (cvec_push_back env h elem)"
| "apply_operation h (Erase index) = map_option snd (cvec_erase h index)"

fun run_operations :: "handle \<Rightarrow> operation list \<Rightarrow> handle option" where
  "run_operations h [] = Some h"
| "run_operations h (x # xs) =
     (case apply_operation h x of None \<Rightarrow> None | Some h' \<Rightarrow> run_operations h' xs)"

text \<open>
  The bytes of the slots at index \<open>size\<close> and beyond (the slots in \<open>[size, capacity)\<close> of
  a well-formed block) are all zero.
\<close>

definition spare_slots_zero :: "cvec \<Rightarrow> bool" where
  "spare_slots_zero meta \<longleftrightarrow>
     list_all (\<lambda>b. b = 0) (drop (unat (size_f meta) * unat (typesize meta)) (data meta))"

text \<open>
  The conditions under which an append has defined behaviour on a well-formed block: \<open>elem\<close>
  points to at least one element's worth of readable bytes and, when the buffer is full,
  \<open>realloc\<close> does not return null, the request for the grown block
  (\<open>32 + new_capacity * typesize\<close>) fits 64 bits, and the elements are at least one byte
  wide unless the buffer has no slot yet. The lemma \<open>push_back_defined_iff\<close> shows that
  these are exactly the appends for which the model returns a result.
\<close>

definition append_defined :: "realloc_env \<Rightarrow> cvec \<Rightarrow> byte list \<Rightarrow> bool" where
  "append_defined env meta elem \<longleftrightarrow>
     unat (typesize meta) \<le> length elem \<and>
     (capacity meta = size_f meta \<longrightarrow>
        realloc_result env \<noteq> 0 \<and>
        32 + (if capacity meta = 0 then 1 else 2 * unat (capacity meta))
               * unat (typesize meta) < 2 ^ 64 \<and>
        (capacity meta = 0 \<or> typesize meta \<noteq> 0))"

section \<open>Facts about the memory primitives\<close>

lemma store_bytes_length:
  "store_bytes mem off xs = Some mem' \<Longrightarrow> length mem' = length mem"
  by (auto simp: store_bytes_def split: if_splits)

lemma store_bytes_take:
  "store_bytes mem off xs = Some mem' \<Longrightarrow> take off mem' = take off mem"
  by (auto simp: store_bytes_def split: if_splits)

lemma store_bytes_drop:
  "store_bytes mem off xs = Some mem' \<Longrightarrow>
   drop (off + length xs) mem' = drop (off + length xs) mem"
  by (auto simp: store_bytes_def split: if_splits)

lemma store_bytes_slice:
  "store_bytes mem off xs = Some mem' \<Longrightarrow> take (length xs) (drop off mem') = xs"
  by (auto simp: store_bytes_def split: if_splits)

lemma store_bytes_in_range:
  "store_bytes mem off xs = Some mem' \<Longrightarrow> off + length xs \<le> length mem"
  by (auto simp: store_bytes_def split: if_splits)

lemma overwrite_length:
  "length el = n \<Longrightarrow> length (take n ys @ drop (length ys) el) = n"
  by auto

lemma call_destructor_Some:
  assumes "call_destructor f mem off n = Some (ev, mem')"
  shows "\<exists>xs. length xs = n \<and> store_bytes mem off xs = Some mem' \<and>
     ev = Destructor_call (take n (drop off mem))"
proof -
  let ?el = "take n (drop off mem)"
  let ?xs = "take n (f ?el) @ drop (length (f ?el)) ?el"
  from assms have inb: "off + n \<le> length mem"
    by (simp add: call_destructor_def split: if_splits)
  then have "length ?el = n" by simp
  then have "length ?xs = n" by (rule overwrite_length)
  moreover from assms inb have "store_bytes mem off ?xs = Some mem'" "ev = Destructor_call ?el"
    by (auto simp: call_destructor_def Let_def)
  ultimately show ?thesis by blast
qed

lemma call_destructor_defined:
  assumes "off + n \<le> length mem"
  shows "\<exists>mem'. call_destructor f mem off n =
           Some (Destructor_call (take n (drop off mem)), mem')"
proof -
  let ?el = "take n (drop off mem)"
  let ?xs = "take n (f ?el) @ drop (length (f ?el)) ?el"
  from assms have "length ?el = n" by simp
  then have "length ?xs = n" by (rule overwrite_length)
  with assms have "store_bytes mem off ?xs \<noteq> None"
    by (simp add: store_bytes_def)
  with assms show ?thesis
    by (auto simp: call_destructor_def Let_def)
qed

lemma realloc_bytes_length: "length (realloc_bytes fresh mem n) = n"
  by (simp add: realloc_bytes_def)

section \<open>Arithmetic of the growth step\<close>

text \<open>
  When the doubled block is requested, the request \<open>32 + 2 * (capacity * typesize)\<close> is
  computed modulo \<open>2 ^ 64\<close>. If it wrapped, the block would be too short for the \<open>memset\<close>
  that follows, which starts at offset \<open>capacity\<close> and covers \<open>capacity * typesize\<close> bytes.
  So a growth step that stays inside its block did not wrap.
\<close>

lemma grow_bound_nat:
  fixes a c :: nat
  assumes a: "a < 2 ^ 64"
    and fit: "32 \<le> (32 + (a + a)) mod 2 ^ 64"
    and inb: "c + a \<le> (32 + (a + a)) mod 2 ^ 64 - 32"
  shows "32 + (a + a) < 2 ^ 64 \<and> c \<le> a"
proof (cases "32 + (a + a) < (2 ^ 64 :: nat)")
  case True
  then have "(32 + (a + a)) mod 2 ^ 64 = 32 + (a + a)" by simp
  with inb True show ?thesis by simp
next
  case False
  define m :: nat where "m = (32 + (a + a)) mod 2 ^ 64"
  define M :: nat where "M = 2 ^ 64"
  from False have ge: "M \<le> 32 + (a + a)" by (simp add: M_def)
  have "m = (32 + (a + a) - M) mod M"
    unfolding m_def M_def using ge [unfolded M_def] by (rule le_mod_geq)
  also have "\<dots> \<le> 32 + (a + a) - M" by (rule mod_less_eq_dividend)
  finally have "m \<le> 32 + (a + a) - M" .
  moreover have "c + a \<le> m - 32" "32 \<le> m" "a < M"
    using inb fit a by (simp_all add: m_def M_def)
  ultimately have False using ge by linarith
  then show ?thesis ..
qed

lemma unat_total_double:
  fixes w :: uint64
  shows "unat (sizeof_metadata + (w + w)) = (32 + (unat w + unat w)) mod 2 ^ 64"
proof -
  have "unat (sizeof_metadata + (w + w)) = (unat sizeof_metadata + unat (w + w)) mod 2 ^ 64"
    by (simp only: unat_word_ariths(1) len_of_numeral_defs) simp
  also have "unat (w + w) = (unat w + unat w) mod 2 ^ 64"
    by (simp only: unat_word_ariths(1)) simp
  also have "unat sizeof_metadata = 32"
    by (simp add: sizeof_metadata_def)
  finally show ?thesis
    by (simp only: mod_add_right_eq)
qed

lemma grow_double_word:
  fixes cap elem_sz :: uint64
  assumes fit: "\<not> sizeof_metadata + cap * 2 * elem_sz < sizeof_metadata"
    and inb: "unat cap + unat ((cap * 2 - cap) * elem_sz)
                \<le> unat (sizeof_metadata + cap * 2 * elem_sz) - unat sizeof_metadata"
  shows "32 + (unat (cap * elem_sz) + unat (cap * elem_sz)) < 2 ^ 64"
    and "unat cap \<le> unat (cap * elem_sz)"
    and "unat (sizeof_metadata + cap * 2 * elem_sz) =
           32 + (unat (cap * elem_sz) + unat (cap * elem_sz))"
proof -
  define w where "w = cap * elem_sz"
  have e1: "cap * 2 * elem_sz = w + w"
    unfolding w_def by (simp add: algebra_simps)
  have e2: "(cap * 2 - cap) * elem_sz = w"
    unfolding w_def by (simp add: algebra_simps)
  have a: "unat w < 2 ^ 64"
    using unsigned_less [of w] by simp
  have s: "unat sizeof_metadata = 32"
    by (simp add: sizeof_metadata_def)
  from fit have "unat sizeof_metadata \<le> unat (sizeof_metadata + (w + w))"
    unfolding e1 by (simp add: word_less_nat_alt)
  then have fit': "32 \<le> (32 + (unat w + unat w)) mod 2 ^ 64"
    unfolding unat_total_double s .
  from inb have inb': "unat cap + unat w \<le> (32 + (unat w + unat w)) mod 2 ^ 64 - 32"
    unfolding e1 e2 unat_total_double s .
  from grow_bound_nat [OF a fit' inb']
  have r: "32 + (unat w + unat w) < 2 ^ 64" "unat cap \<le> unat w"
    by simp_all
  from r(1) have "unat (sizeof_metadata + (w + w)) = 32 + (unat w + unat w)"
    unfolding unat_total_double by simp
  with r show "32 + (unat (cap * elem_sz) + unat (cap * elem_sz)) < 2 ^ 64"
    and "unat cap \<le> unat (cap * elem_sz)"
    and "unat (sizeof_metadata + cap * 2 * elem_sz) =
           32 + (unat (cap * elem_sz) + unat (cap * elem_sz))"
    unfolding e1 unfolding w_def by simp_all
qed


section \<open>The two branches of an append\<close>

lemma push_back_no_growth:
  assumes "capacity meta \<noteq> size_f meta"
  shows "cvec_push_back env (Vec meta) elem =
     map_option (\<lambda>mem. ([], Vec (meta \<lparr> data := mem, size_f := size_f meta + 1 \<rparr>)))
       (memcpy_bytes (data meta) (unat (size_f meta * typesize meta)) elem
          (unat (typesize meta)))"
  using assms by (cases "memcpy_bytes (data meta) (unat (size_f meta * typesize meta)) elem
          (unat (typesize meta))") (simp_all add: cvec_push_back_def Let_def)

lemma push_back_growth:
  assumes full: "capacity meta = size_f meta"
    and some: "cvec_push_back env (Vec meta) elem = Some (evs, h)"
  shows "\<exists>mem1 mem2.
     realloc_result env \<noteq> 0 \<and>
     \<not> sizeof_metadata + (if capacity meta = 0 then 1 else capacity meta * 2) * typesize meta
         < sizeof_metadata \<and>
     memset_bytes
       (realloc_bytes (realloc_fresh env) (data meta)
          (unat (sizeof_metadata +
                 (if capacity meta = 0 then 1 else capacity meta * 2) * typesize meta)
           - unat sizeof_metadata))
       (unat (capacity meta)) 0
       (unat (((if capacity meta = 0 then 1 else capacity meta * 2) - capacity meta)
              * typesize meta)) = Some mem1 \<and>
     memcpy_bytes mem1 (unat (size_f meta * typesize meta)) elem (unat (typesize meta))
       = Some mem2 \<and>
     evs = [Realloc_call (addr meta - sizeof_metadata)
              (sizeof_metadata +
               (if capacity meta = 0 then 1 else capacity meta * 2) * typesize meta)] \<and>
     h = Vec (meta \<lparr> addr := realloc_result env + sizeof_metadata, data := mem2,
                     capacity := (if capacity meta = 0 then 1 else capacity meta * 2),
                     size_f := size_f meta + 1 \<rparr>)"
  using some full
  by (auto simp: cvec_push_back_def Let_def split: if_splits Option.bind_splits)


lemma unat_meta_plus:
  fixes x :: uint64
  assumes "\<not> sizeof_metadata + x < sizeof_metadata"
  shows "unat (sizeof_metadata + x) = 32 + unat x"
proof -
  from assms have "sizeof_metadata \<le> sizeof_metadata + x" by simp
  then have "unat (sizeof_metadata + x) = unat sizeof_metadata + unat x"
    by (simp only: unat_plus_simple)
  then show ?thesis by (simp add: sizeof_metadata_def)
qed

lemma unat_double:
  fixes c :: uint64
  assumes "2 * unat c < 2 ^ 64"
  shows "unat (c * 2) = 2 * unat c"
proof -
  have "unat (c * 2) = (unat c * unat (2 :: uint64)) mod 2 ^ 64"
    by (simp only: unat_word_ariths(2)) simp
  also have "\<dots> = (2 * unat c) mod 2 ^ 64" by (simp add: mult.commute)
  also have "\<dots> = 2 * unat c" using assms by simp
  finally show ?thesis .
qed

lemma unat_succ:
  fixes c :: uint64
  assumes "unat c + 1 < 2 ^ 64"
  shows "unat (c + 1) = Suc (unat c)"
proof -
  have "unat (c + 1) = (unat c + unat (1 :: uint64)) mod 2 ^ 64"
    by (simp only: unat_word_ariths(1)) simp
  also have "\<dots> = Suc (unat c)" using assms by simp
  finally show ?thesis .
qed

lemma unat_mult_exact:
  fixes x y :: uint64
  assumes "unat x * unat y < 2 ^ 64"
  shows "unat (x * y) = unat x * unat y"
proof -
  have "unat (x * y) = (unat x * unat y) mod 2 ^ 64"
    by (simp only: unat_word_ariths(2)) simp
  with assms show ?thesis by simp
qed

text \<open>The facts a defined growth step provides.\<close>

lemma push_back_growth_arith:
  assumes full: "capacity meta = size_f meta"
    and some: "cvec_push_back env (Vec meta) elem = Some (evs, Vec meta')"
  shows "unat (capacity meta') = (if capacity meta = 0 then 1 else 2 * unat (capacity meta))"
    and "unat (size_f meta') = Suc (unat (size_f meta))"
    and "length (data meta') = unat (capacity meta' * typesize meta')"
    and "32 + length (data meta') < 2 ^ 64"
proof -
  let ?cap = "capacity meta" and ?ts = "typesize meta"
  let ?new = "if ?cap = 0 then 1 else ?cap * 2"
  from push_back_growth [OF full some] obtain mem1 mem2 where
    fit: "\<not> sizeof_metadata + ?new * ?ts < sizeof_metadata"
    and set: "memset_bytes
       (realloc_bytes (realloc_fresh env) (data meta)
          (unat (sizeof_metadata + ?new * ?ts) - unat sizeof_metadata))
       (unat ?cap) 0 (unat ((?new - ?cap) * ?ts)) = Some mem1"
    and cpy: "memcpy_bytes mem1 (unat (size_f meta * ?ts)) elem (unat ?ts) = Some mem2"
    and meta': "meta' = meta \<lparr> addr := realloc_result env + sizeof_metadata, data := mem2,
                     capacity := ?new, size_f := size_f meta + 1 \<rparr>"
    by blast
  from set have len1: "length mem1 = unat (sizeof_metadata + ?new * ?ts) - unat sizeof_metadata"
    by (simp add: memset_bytes_def store_bytes_length [of _ _ _ mem1] realloc_bytes_length)
  from cpy have len2: "length mem2 = length mem1"
    by (auto simp: memcpy_bytes_def split: if_splits dest: store_bytes_length)
  from set have inb: "unat ?cap + unat ((?new - ?cap) * ?ts)
      \<le> unat (sizeof_metadata + ?new * ?ts) - unat sizeof_metadata"
    by (auto simp: memset_bytes_def realloc_bytes_length dest: store_bytes_in_range)
  have tot: "unat (sizeof_metadata + ?new * ?ts) = 32 + unat (?new * ?ts)"
    using fit by (rule unat_meta_plus)
  have s: "unat sizeof_metadata = 32" by (simp add: sizeof_metadata_def)
  have lt: "unat (sizeof_metadata + ?new * ?ts) < 2 ^ 64"
    using unsigned_less [of "sizeof_metadata + ?new * ?ts"] by simp
  have L: "length (data meta') = unat (?new * ?ts)" "32 + length (data meta') < 2 ^ 64"
    using lt by (simp_all add: meta' len2 len1 tot s)
  have C: "unat ?new = (if ?cap = 0 then 1 else 2 * unat ?cap) \<and>
           unat (?cap + 1) = Suc (unat ?cap)"
  proof (cases "?cap = 0")
    case True
    then show ?thesis by simp
  next
    case False
    with fit inb have
      "\<not> sizeof_metadata + ?cap * 2 * ?ts < sizeof_metadata"
      "unat ?cap + unat ((?cap * 2 - ?cap) * ?ts)
         \<le> unat (sizeof_metadata + ?cap * 2 * ?ts) - unat sizeof_metadata"
      by simp_all
    from grow_double_word(1,2) [OF this]
    have "2 * unat ?cap < 2 ^ 64" "unat ?cap + 1 < 2 ^ 64" by simp_all
    then have "unat (?cap * 2) = 2 * unat ?cap" "unat (?cap + 1) = Suc (unat ?cap)"
      by (simp_all only: unat_double unat_succ)
    with False show ?thesis by simp
  qed
  from C show "unat (capacity meta') = (if capacity meta = 0 then 1 else 2 * unat (capacity meta))"
    by (simp add: meta')
  from C full show "unat (size_f meta') = Suc (unat (size_f meta))"
    by (simp add: meta')
  from L show "length (data meta') = unat (capacity meta' * typesize meta')"
    by (simp add: meta')
  from L show "32 + length (data meta') < 2 ^ 64" by simp
qed


section \<open>The invariant \<open>size \<le> capacity\<close>\<close>

lemma push_back_Vec:
  assumes "cvec_push_back env (Vec meta) elem = Some (evs, h)"
  shows "\<exists>meta'. h = Vec meta'"
proof (cases "capacity meta = size_f meta")
  case True
  from push_back_growth [OF True assms] show ?thesis by blast
next
  case False
  with assms show ?thesis by (auto simp: push_back_no_growth)
qed

lemma erase_in_range:
  assumes lt: "index < size_f meta"
    and some: "cvec_erase (Vec meta) index = Some (evs, h)"
  shows "\<exists>mem1 mem2.
     (case destructor meta of
        None \<Rightarrow> evs = [] \<and> mem1 = data meta
      | Some f \<Rightarrow> \<exists>ev. call_destructor f (data meta) (unat (index * typesize meta))
                           (unat (typesize meta)) = Some (ev, mem1) \<and> evs = [ev]) \<and>
     memmove_bytes mem1 (unat (index * typesize meta)) (unat ((index + 1) * typesize meta))
       (unat ((size_f meta - (index + 1)) * typesize meta)) = Some mem2 \<and>
     h = Vec (meta \<lparr> data := mem2, size_f := size_f meta - 1 \<rparr>)"
proof -
  from lt have "\<not> size_f meta \<le> index" by simp
  with some show ?thesis
    by (auto simp: cvec_erase_def Let_def split: option.splits Option.bind_splits)
qed

lemma size_le_capacity_push_back:
  assumes inv: "size_f meta \<le> capacity meta"
    and some: "cvec_push_back env (Vec meta) elem = Some (evs, Vec meta')"
  shows "size_f meta' \<le> capacity meta'"
proof (cases "capacity meta = size_f meta")
  case True
  from push_back_growth_arith(1,2) [OF True some] True
  have "unat (size_f meta') \<le> unat (capacity meta')"
    by (cases "capacity meta = 0") (auto simp: unat_gt_0 Suc_le_eq)
  then show ?thesis by (simp add: word_le_nat_alt)
next
  case False
  with inv have lt: "size_f meta < capacity meta" by simp
  then have "size_f meta + 1 \<le> capacity meta" by (rule inc_le)
  with some False show ?thesis
    by (auto simp: push_back_no_growth)
qed

lemma size_le_capacity_erase:
  assumes inv: "size_f meta \<le> capacity meta"
    and some: "cvec_erase (Vec meta) index = Some (evs, Vec meta')"
  shows "size_f meta' \<le> capacity meta'"
proof (cases "index < size_f meta")
  case True
  from erase_in_range [OF True some]
  have eq: "size_f meta' = size_f meta - 1" "capacity meta' = capacity meta" by auto
  from True have "size_f meta \<noteq> 0" by (metis word_not_simps(1))
  then have "size_f meta - 1 \<le> size_f meta" by (simp add: word_le_nat_alt unat_minus_one)
  with inv eq show ?thesis by simp
next
  case False
  then have "size_f meta \<le> index" by simp
  with some inv show ?thesis by (simp add: cvec_erase_def)
qed

lemma size_le_capacity_apply:
  assumes "cvec_get_sz h \<le> cvec_get_capacity h" and "apply_operation h x = Some h'"
  shows "cvec_get_sz h' \<le> cvec_get_capacity h'"
proof (cases h)
  case Null
  with assms show ?thesis
    by (cases x) (auto simp: cvec_push_back_def cvec_erase_def)
next
  case (Vec meta)
  show ?thesis
  proof (cases x)
    case (Push_back env elem)
    with assms Vec obtain evs where s: "cvec_push_back env (Vec meta) elem = Some (evs, h')"
      by auto
    from push_back_Vec [OF s] obtain meta' where "h' = Vec meta'" ..
    with s assms(1) Vec size_le_capacity_push_back [of meta env elem evs meta'] show ?thesis
      by (simp add: cvec_get_sz_def cvec_get_capacity_def)
  next
    case (Erase index)
    with assms Vec obtain evs where s: "cvec_erase (Vec meta) index = Some (evs, h')"
      by auto
    show ?thesis
    proof (cases h')
      case Null
      then show ?thesis by (simp add: cvec_get_sz_def cvec_get_capacity_def)
    next
      case (Vec meta')
      with s assms(1) \<open>h = Vec meta\<close> size_le_capacity_erase [of meta index evs meta']
      show ?thesis by (simp add: cvec_get_sz_def cvec_get_capacity_def)
    qed
  qed
qed

lemma size_le_capacity_run:
  assumes "cvec_get_sz h \<le> cvec_get_capacity h" and "run_operations h xs = Some h'"
  shows "cvec_get_sz h' \<le> cvec_get_capacity h'"
  using assms
proof (induction xs arbitrary: h)
  case Nil
  then show ?case by simp
next
  case (Cons x xs)
  from Cons.prems(2) obtain h1 where a: "apply_operation h x = Some h1"
    and r: "run_operations h1 xs = Some h'"
    by (auto split: option.splits)
  from size_le_capacity_apply [OF Cons.prems(1) a] have "cvec_get_sz h1 \<le> cvec_get_capacity h1" .
  from Cons.IH [OF this r] show ?case .
qed


section \<open>Evaluating the operations on concrete blocks\<close>

lemma replicate_numeral_unfold:
  "replicate (numeral k) x = x # replicate (pred_numeral k) x"
  by (simp add: numeral_eq_Suc)

lemmas run_simps =
  free_loop.simps cvec_create_def cvec_reserve_def cvec_push_back_def cvec_erase_def cvec_free_def
  call_destructor_def sizeof_metadata_def memset_bytes_def memcpy_bytes_def memmove_bytes_def
  store_bytes_def realloc_bytes_def upt_conv_Cons replicate_numeral_unfold

section \<open>Well-formed blocks\<close>

lemma wf_offset:
  assumes wf: "cvec_wf meta" and le: "unat i \<le> unat (capacity meta)"
  shows "unat (i * typesize meta) = unat i * unat (typesize meta)"
proof -
  from le have "unat i * unat (typesize meta) \<le> unat (capacity meta) * unat (typesize meta)"
    by (rule mult_le_mono1)
  moreover from wf have "unat (capacity meta) * unat (typesize meta) < 2 ^ 64"
    by (simp add: cvec_wf_def)
  ultimately have "unat i * unat (typesize meta) < 2 ^ 64"
    by (rule le_less_trans)
  then show ?thesis by (rule unat_mult_exact)
qed

lemma wf_slot_in_range:
  assumes wf: "cvec_wf meta" and lt: "i < unat (capacity meta)"
  shows "i * unat (typesize meta) + unat (typesize meta) \<le> length (data meta)"
proof -
  from lt have "Suc i \<le> unat (capacity meta)" by simp
  then have "Suc i * unat (typesize meta) \<le> unat (capacity meta) * unat (typesize meta)"
    by (rule mult_le_mono1)
  with wf show ?thesis by (simp add: cvec_wf_def add.commute)
qed

lemma slots_ordered:
  fixes i j t :: nat
  assumes "i < j"
  shows "i * t + t \<le> j * t"
proof -
  from assms have "Suc i \<le> j" by simp
  then have "Suc i * t \<le> j * t" by (rule mult_le_mono1)
  then show ?thesis by (simp add: add.commute)
qed

lemma unat_succ_less:
  fixes s c :: uint64
  assumes "s < c"
  shows "unat (s + 1) = Suc (unat s)"
proof -
  from assms have "unat s < unat c" by (simp add: word_less_nat_alt)
  moreover have "unat c < 2 ^ 64" using unsigned_less [of c] by simp
  ultimately have "unat s + 1 < 2 ^ 64" by simp
  then show ?thesis by (rule unat_succ)
qed

text \<open>An append that finds room: what it returns, in full.\<close>

lemma push_back_room:
  assumes wf: "cvec_wf meta" and lt: "size_f meta < capacity meta"
    and len: "unat (typesize meta) \<le> length elem"
  shows "\<exists>mem. store_bytes (data meta) (unat (size_f meta) * unat (typesize meta))
                 (take (unat (typesize meta)) elem) = Some mem \<and>
           cvec_push_back env (Vec meta) elem =
             Some ([], Vec (meta \<lparr> data := mem, size_f := size_f meta + 1 \<rparr>))"
proof -
  let ?s = "unat (size_f meta)" and ?t = "unat (typesize meta)"
  from lt have lt': "?s < unat (capacity meta)" by (simp add: word_less_nat_alt)
  then have off: "unat (size_f meta * typesize meta) = ?s * ?t"
    using wf by (intro wf_offset) simp_all
  from wf_slot_in_range [OF wf lt'] len
  obtain mem where st: "store_bytes (data meta) (?s * ?t) (take ?t elem) = Some mem"
    by (auto simp: store_bytes_def)
  from lt have "capacity meta \<noteq> size_f meta" by auto
  then have "cvec_push_back env (Vec meta) elem =
      Some ([], Vec (meta \<lparr> data := mem, size_f := size_f meta + 1 \<rparr>))"
    using st len by (simp add: push_back_no_growth memcpy_bytes_def off)
  with st show ?thesis by blast
qed

section \<open>Slices around a store\<close>

lemma slice_before_store:
  assumes st: "store_bytes mem off xs = Some mem'" and le: "p + t \<le> off"
  shows "take t (drop p mem') = take t (drop p mem)"
proof -
  have "take t (drop p (take off ys)) = take t (drop p ys)" for ys :: "byte list"
    using le by (simp add: drop_take min_def)
  from this [of mem', symmetric] this [of mem, symmetric] store_bytes_take [OF st]
  show ?thesis by simp
qed

lemma slice_of_store:
  assumes st: "store_bytes mem off xs = Some mem'" and le: "a + t \<le> length xs"
  shows "take t (drop (off + a) mem') = take t (drop a xs)"
proof -
  have "take t (drop a (take (length xs) (drop off mem'))) = take t (drop a (drop off mem'))"
    using le by (simp add: drop_take min_def)
  with store_bytes_slice [OF st] show ?thesis
    by (simp add: add.commute)
qed


lemma slice_in_prefix:
  assumes "take m xs = take m ys" and le: "p + t \<le> m"
  shows "take t (drop p xs) = take t (drop p (ys :: byte list))"
proof -
  have "take t (drop p (take m zs)) = take t (drop p zs)" for zs :: "byte list"
    using le by (simp add: drop_take min_def)
  from this [of xs, symmetric] this [of ys, symmetric] assms(1)
  show ?thesis by simp
qed

lemma drop_in_suffix:
  assumes "drop m xs = drop m ys" and le: "m \<le> p"
  shows "drop p xs = drop p (ys :: byte list)"
proof -
  from le obtain d where p: "p = m + d"
    using le_Suc_ex by blast
  have "drop p zs = drop d (drop m zs)" for zs :: "byte list"
    by (simp add: p add.commute)
  from this [of xs] this [of ys] assms(1) show ?thesis by simp
qed

text \<open>What \<open>cvec_erase\<close> does to a well-formed block at a live index, stage by stage.\<close>

lemma erase_wf:
  assumes wf: "cvec_wf meta" and lt: "index < size_f meta"
  shows "\<exists>mem1 mem2.
      length mem1 = length (data meta) \<and>
      take (unat index * unat (typesize meta)) mem1
        = take (unat index * unat (typesize meta)) (data meta) \<and>
      drop (Suc (unat index) * unat (typesize meta)) mem1
        = drop (Suc (unat index) * unat (typesize meta)) (data meta) \<and>
      (destructor meta = None \<longrightarrow> mem1 = data meta) \<and>
      store_bytes mem1 (unat index * unat (typesize meta))
        (take ((unat (size_f meta) - Suc (unat index)) * unat (typesize meta))
           (drop (Suc (unat index) * unat (typesize meta)) mem1)) = Some mem2 \<and>
      Suc (unat index) * unat (typesize meta)
        + (unat (size_f meta) - Suc (unat index)) * unat (typesize meta) \<le> length mem1 \<and>
      cvec_erase (Vec meta) index =
        Some ((case destructor meta of None \<Rightarrow> []
               | Some f \<Rightarrow> [Destructor_call (elem_at meta (unat index))]),
              Vec (meta \<lparr> data := mem2, size_f := size_f meta - 1 \<rparr>))"
proof -
  let ?i = "unat index" and ?s = "unat (size_f meta)" and ?c = "unat (capacity meta)"
    and ?t = "unat (typesize meta)"
  let ?n = "(?s - Suc ?i) * ?t"
  from lt have i_lt: "?i < ?s" by (simp add: word_less_nat_alt)
  from wf have sc: "?s \<le> ?c" and len: "length (data meta) = ?c * ?t"
    by (simp_all add: cvec_wf_def)
  have u1: "unat (index + 1) = Suc ?i" using lt by (rule unat_succ_less)
  have "index + 1 \<le> size_f meta" using lt by (rule inc_le)
  then have u2: "unat (size_f meta - (index + 1)) = ?s - Suc ?i"
    by (simp add: unat_sub u1)
  have o1: "unat (index * typesize meta) = ?i * ?t"
    using wf i_lt sc by (intro wf_offset) simp_all
  have o2: "unat ((index + 1) * typesize meta) = Suc ?i * ?t"
    using wf_offset [OF wf, of "index + 1"] i_lt sc by (simp add: u1)
  have o3: "unat ((size_f meta - (index + 1)) * typesize meta) = ?n"
    using wf_offset [OF wf, of "size_f meta - (index + 1)"] i_lt sc by (simp add: u2)
  from i_lt sc have "?i < ?c" by simp
  from wf_slot_in_range [OF wf this] have r1: "?i * ?t + ?t \<le> length (data meta)" .
  have "Suc ?i * ?t + ?n = ?s * ?t"
    using i_lt by (simp add: add_mult_distrib [symmetric] del: mult_Suc)
  moreover have "?s * ?t \<le> ?c * ?t" using sc by (rule mult_le_mono1)
  ultimately have r2: "Suc ?i * ?t + ?n \<le> length (data meta)"
    by (simp add: len)
  obtain evs mem1 where
    d: "(case destructor meta of
           None \<Rightarrow> Some ([], data meta)
         | Some f \<Rightarrow> do {
             (ev, mem) \<leftarrow> call_destructor f (data meta)
                            (unat (index * typesize meta)) ?t;
             Some ([ev], mem)
           }) = Some (evs, mem1)"
    and evs: "evs = (case destructor meta of None \<Rightarrow> []
               | Some f \<Rightarrow> [Destructor_call (elem_at meta ?i)])"
    and l1: "length mem1 = length (data meta)"
    and t1: "take (?i * ?t) mem1 = take (?i * ?t) (data meta)"
    and d1: "drop (Suc ?i * ?t) mem1 = drop (Suc ?i * ?t) (data meta)"
    and n1: "destructor meta = None \<longrightarrow> mem1 = data meta"
  proof (cases "destructor meta")
    case None
    then show ?thesis by (intro that [of "[]" "data meta"]) simp_all
  next
    case (Some f)
    from call_destructor_defined [OF r1, of f] obtain mem where
      c: "call_destructor f (data meta) (?i * ?t) ?t
            = Some (Destructor_call (take ?t (drop (?i * ?t) (data meta))), mem)"
      by blast
    from call_destructor_Some [OF c] obtain xs where
      xs: "length xs = ?t" and st: "store_bytes (data meta) (?i * ?t) xs = Some mem"
      by blast
    from store_bytes_drop [OF st] xs
    have "drop (Suc ?i * ?t) mem = drop (Suc ?i * ?t) (data meta)"
      by (simp add: add.commute)
    with Some c store_bytes_length [OF st] store_bytes_take [OF st]
    show ?thesis
      by (intro that [of "[Destructor_call (elem_at meta ?i)]" mem])
        (simp_all add: elem_at_def o1)
  qed
  from r2 l1 have r2': "Suc ?i * ?t + ?n \<le> length mem1" by simp
  then have ln: "length (take ?n (drop (Suc ?i * ?t) mem1)) = ?n" by simp
  from r2' have "?i * ?t + ?n \<le> length mem1" by simp
  with ln obtain mem2 where
    st2: "store_bytes mem1 (?i * ?t) (take ?n (drop (Suc ?i * ?t) mem1)) = Some mem2"
    by (simp add: store_bytes_def)
  with r2' have "memmove_bytes mem1 (?i * ?t) (Suc ?i * ?t) ?n = Some mem2"
    by (simp add: memmove_bytes_def)
  then have mv: "memmove_bytes mem1 (unat (index * typesize meta))
      (unat ((index + 1) * typesize meta))
      (unat ((size_f meta - (index + 1)) * typesize meta)) = Some mem2"
    by (simp only: o1 o2 o3)
  from lt have "\<not> size_f meta \<le> index" by simp
  with d mv have "cvec_erase (Vec meta) index =
      Some (evs, Vec (meta \<lparr> data := mem2, size_f := size_f meta - 1 \<rparr>))"
    by (simp add: cvec_erase_def Let_def)
  then have "cvec_erase (Vec meta) index =
      Some ((case destructor meta of None \<Rightarrow> []
             | Some f \<Rightarrow> [Destructor_call (elem_at meta ?i)]),
            Vec (meta \<lparr> data := mem2, size_f := size_f meta - 1 \<rparr>))"
    by (simp only: evs)
  with l1 t1 d1 n1 st2 r2' have
    "length mem1 = length (data meta) \<and>
      take (?i * ?t) mem1 = take (?i * ?t) (data meta) \<and>
      drop (Suc ?i * ?t) mem1 = drop (Suc ?i * ?t) (data meta) \<and>
      (destructor meta = None \<longrightarrow> mem1 = data meta) \<and>
      store_bytes mem1 (?i * ?t) (take ?n (drop (Suc ?i * ?t) mem1)) = Some mem2 \<and>
      Suc ?i * ?t + ?n \<le> length mem1 \<and>
      cvec_erase (Vec meta) index =
        Some ((case destructor meta of None \<Rightarrow> []
               | Some f \<Rightarrow> [Destructor_call (elem_at meta ?i)]),
              Vec (meta \<lparr> data := mem2, size_f := size_f meta - 1 \<rparr>))"
    by (intro conjI)
  then show ?thesis by (intro exI)
qed

section \<open>The teardown loop\<close>

lemma free_loop_trace:
  assumes "unat sz * unat elem_sz \<le> length mem"
    and "unat sz * unat elem_sz < 2 ^ 64"
    and "unat i \<le> unat sz"
    and "drop (unat i * unat elem_sz) mem = drop (unat i * unat elem_sz) orig"
  shows "\<exists>mem'. free_loop f elem_sz sz i mem evs =
           Some (evs @ map (\<lambda>j. Destructor_call
                               (take (unat elem_sz) (drop (j * unat elem_sz) orig)))
                         [unat i ..< unat sz], mem')"
  using assms
proof (induction f elem_sz sz i mem evs rule: free_loop.induct)
  case (1 f elem_sz sz i mem evs)
  let ?t = "unat elem_sz" and ?i = "unat i" and ?s = "unat sz"
  let ?ev = "\<lambda>j. Destructor_call (take ?t (drop (j * ?t) orig))"
  show ?case
  proof (cases "i < sz")
    case False
    with "1.prems"(3) have "?i = ?s"
      by (simp add: word_less_nat_alt)
    with False show ?thesis
      by (subst free_loop.simps) simp
  next
    case True
    then have lt: "?i < ?s" by (simp add: word_less_nat_alt)
    have suc: "unat (i + 1) = Suc ?i" using True by (rule unat_succ_less)
    from slots_ordered [OF lt] have le: "?i * ?t + ?t \<le> ?s * ?t" .
    with "1.prems"(2) have "?i * ?t < 2 ^ 64" by simp
    then have off: "unat (i * elem_sz) = ?i * ?t" by (rule unat_mult_exact)
    from le "1.prems"(1) have inb: "?i * ?t + ?t \<le> length mem" by simp
    from call_destructor_defined [OF inb, of f] obtain mem' where
      c: "call_destructor f mem (?i * ?t) ?t
            = Some (Destructor_call (take ?t (drop (?i * ?t) mem)), mem')"
      by blast
    from call_destructor_Some [OF c] obtain xs where
      xs: "length xs = ?t" and st: "store_bytes mem (?i * ?t) xs = Some mem'"
      by blast
    have ev: "Destructor_call (take ?t (drop (?i * ?t) mem)) = ?ev ?i"
      by (simp only: "1.prems"(4))
    have len': "?s * ?t \<le> length mem'"
      using "1.prems"(1) store_bytes_length [OF st] by simp
    have "drop (?i * ?t + ?t) mem' = drop (?i * ?t + ?t) mem"
      using store_bytes_drop [OF st] xs by simp
    also have "\<dots> = drop (?i * ?t + ?t) orig"
      using "1.prems"(4) by (rule drop_in_suffix) simp
    finally have "drop (Suc ?i * ?t) mem' = drop (Suc ?i * ?t) orig"
      by (simp add: add.commute)
    then have suffix': "drop (unat (i + 1) * ?t) mem' = drop (unat (i + 1) * ?t) orig"
      by (simp only: suc)
    from lt have le': "unat (i + 1) \<le> ?s" by (simp add: suc)
    from "1.IH" [OF True c [unfolded off [symmetric]] refl len' "1.prems"(2) le' suffix',
        unfolded suc off]
    obtain mem'' where
      r: "free_loop f elem_sz sz (i + 1) mem'
            (evs @ [Destructor_call (take ?t (drop (?i * ?t) mem))])
          = Some ((evs @ [Destructor_call (take ?t (drop (?i * ?t) mem))])
                  @ map ?ev [Suc ?i ..< ?s], mem'')"
      by blast
    have "free_loop f elem_sz sz i mem evs =
        free_loop f elem_sz sz (i + 1) mem'
            (evs @ [Destructor_call (take ?t (drop (?i * ?t) mem))])"
      using True c by (subst free_loop.simps) (simp add: off)
    also note r
    also have "(evs @ [Destructor_call (take ?t (drop (?i * ?t) mem))]) @ map ?ev [Suc ?i ..< ?s]
        = evs @ map ?ev [?i ..< ?s]"
      using lt by (simp add: ev upt_conv_Cons)
    finally show ?thesis by (intro exI)
  qed
qed

section \<open>How the capacity moves\<close>

lemma push_back_capacity:
  assumes some: "cvec_push_back env (Vec meta) elem = Some (evs, Vec meta')"
  shows "unat (capacity meta') =
     (if capacity meta = size_f meta
      then (if capacity meta = 0 then 1 else 2 * unat (capacity meta))
      else unat (capacity meta))"
proof (cases "capacity meta = size_f meta")
  case True
  from push_back_growth_arith(1) [OF True some] True show ?thesis by simp
next
  case False
  with some show ?thesis by (auto simp: push_back_no_growth)
qed

lemma apply_operation_capacity_mono:
  assumes "apply_operation h x = Some h'"
  shows "cvec_get_capacity h \<le> cvec_get_capacity h'"
proof (cases h)
  case Null
  then show ?thesis by (simp add: cvec_get_capacity_def)
next
  case (Vec meta)
  show ?thesis
  proof (cases x)
    case (Push_back env elem)
    with assms Vec obtain evs where s: "cvec_push_back env (Vec meta) elem = Some (evs, h')"
      by auto
    from push_back_Vec [OF s] obtain meta' where h': "h' = Vec meta'" ..
    from push_back_capacity [OF s [unfolded h']]
    have "unat (capacity meta) \<le> unat (capacity meta')"
      by (simp split: if_splits)
    with Vec h' show ?thesis
      by (simp add: cvec_get_capacity_def word_le_nat_alt)
  next
    case (Erase index)
    with assms Vec obtain evs where s: "cvec_erase (Vec meta) index = Some (evs, h')"
      by auto
    show ?thesis
    proof (cases "index < size_f meta")
      case True
      from erase_in_range [OF True s] Vec show ?thesis
        by (auto simp: cvec_get_capacity_def)
    next
      case False
      then have "size_f meta \<le> index" by simp
      with s Vec show ?thesis by (simp add: cvec_erase_def)
    qed
  qed
qed

text \<open>
  After appends only, starting empty with capacity 0, the capacity is the least power of two
  that holds the elements. The invariant behind it: either nothing was ever stored, or the
  capacity is a power of two with \<open>capacity / 2 < size \<le> capacity\<close>.
\<close>

lemma doubling_step:
  assumes inv: "(unat (size_f meta) = 0 \<and> unat (capacity meta) = 0) \<or>
      (\<exists>k. unat (capacity meta) = 2 ^ k \<and> unat (size_f meta) \<le> 2 ^ k \<and>
            2 ^ k < 2 * unat (size_f meta))"
    and some: "cvec_push_back env (Vec meta) elem = Some (evs, Vec meta')"
  shows "unat (size_f meta') = Suc (unat (size_f meta)) \<and>
      (\<exists>k. unat (capacity meta') = 2 ^ k \<and> unat (size_f meta') \<le> 2 ^ k \<and>
            2 ^ k < 2 * unat (size_f meta'))"
proof (cases "capacity meta = size_f meta")
  case True
  note s = push_back_growth_arith(2) [OF True some]
  note c = push_back_growth_arith(1) [OF True some]
  show ?thesis
  proof (cases "capacity meta = 0")
    case z: True
    with True have "unat (size_f meta) = 0" by simp
    with s c z have "unat (capacity meta') = 2 ^ 0 \<and> unat (size_f meta') \<le> 2 ^ 0 \<and>
        2 ^ 0 < 2 * unat (size_f meta')"
      by simp
    with s show ?thesis by blast
  next
    case nz: False
    then have "unat (capacity meta) \<noteq> 0" by (simp add: unat_eq_0)
    with inv obtain k where k: "unat (capacity meta) = 2 ^ k" by auto
    from True have "unat (size_f meta) = unat (capacity meta)" by simp
    with s c nz k have "unat (capacity meta') = 2 ^ Suc k \<and> unat (size_f meta') \<le> 2 ^ Suc k \<and>
        2 ^ Suc k < 2 * unat (size_f meta')"
      by simp
    with s show ?thesis by blast
  qed
next
  case False
  with inv obtain k where k: "unat (capacity meta) = 2 ^ k"
    "unat (size_f meta) \<le> 2 ^ k" "2 ^ k < 2 * unat (size_f meta)"
    by (auto simp: word_unat_eq_iff)
  from False k have "unat (size_f meta) < unat (capacity meta)"
    by (simp add: word_unat_eq_iff)
  then have "size_f meta < capacity meta" by (simp add: word_less_nat_alt)
  then have suc: "unat (size_f meta + 1) = Suc (unat (size_f meta))" by (rule unat_succ_less)
  from some False have m': "size_f meta' = size_f meta + 1" "capacity meta' = capacity meta"
    by (auto simp: push_back_no_growth)
  from k \<open>unat (size_f meta) < unat (capacity meta)\<close>
  have "unat (capacity meta') = 2 ^ k \<and> unat (size_f meta') \<le> 2 ^ k \<and>
        2 ^ k < 2 * unat (size_f meta')"
    by (simp add: m' suc)
  moreover have "unat (size_f meta') = Suc (unat (size_f meta))"
    by (simp only: m' suc)
  ultimately show ?thesis by blast
qed

lemma doubling_run:
  assumes "(unat (size_f meta) = 0 \<and> unat (capacity meta) = 0) \<or>
      (\<exists>k. unat (capacity meta) = 2 ^ k \<and> unat (size_f meta) \<le> 2 ^ k \<and>
            2 ^ k < 2 * unat (size_f meta))"
    and "run_operations (Vec meta) (map (\<lambda>(env, elem). Push_back env elem) xs) = Some h"
    and "xs \<noteq> []"
  shows "\<exists>meta' k. h = Vec meta' \<and>
      unat (size_f meta') = unat (size_f meta) + length xs \<and>
      unat (capacity meta') = 2 ^ k \<and> unat (size_f meta') \<le> 2 ^ k \<and>
      2 ^ k < 2 * unat (size_f meta')"
  using assms
proof (induction xs arbitrary: meta)
  case Nil
  then show ?case by simp
next
  case (Cons x xs)
  obtain env elem where x: "x = (env, elem)" by (cases x)
  from Cons.prems(2) x obtain evs h1 where
    p: "cvec_push_back env (Vec meta) elem = Some (evs, h1)"
    and r: "run_operations h1 (map (\<lambda>(env, elem). Push_back env elem) xs) = Some h"
    by (auto split: option.splits)
  from push_back_Vec [OF p] obtain meta1 where h1: "h1 = Vec meta1" ..
  from doubling_step [OF Cons.prems(1) p [unfolded h1]] obtain k where
    s1: "unat (size_f meta1) = Suc (unat (size_f meta))"
    and k: "unat (capacity meta1) = 2 ^ k" "unat (size_f meta1) \<le> 2 ^ k"
      "2 ^ k < 2 * unat (size_f meta1)"
    by blast
  show ?case
  proof (cases "xs = []")
    case True
    with r h1 have "h = Vec meta1" by simp
    with s1 k True show ?thesis by auto
  next
    case False
    from k have "(unat (size_f meta1) = 0 \<and> unat (capacity meta1) = 0) \<or>
      (\<exists>k. unat (capacity meta1) = 2 ^ k \<and> unat (size_f meta1) \<le> 2 ^ k \<and>
            2 ^ k < 2 * unat (size_f meta1))"
      by blast
    from Cons.IH [OF this r [unfolded h1] False] s1 show ?thesis
      by auto
  qed
qed

lemma push_back_capacity_word:
  assumes some: "cvec_push_back env (Vec meta) elem = Some (evs, Vec meta')"
  shows "capacity meta' =
     (if capacity meta = size_f meta
      then (if capacity meta = 0 then 1 else 2 * capacity meta)
      else capacity meta)"
proof (cases "capacity meta = size_f meta")
  case True
  from push_back_growth [OF True some] True show ?thesis by auto
next
  case False
  with some show ?thesis by (auto simp: push_back_no_growth)
qed

section \<open>The spare slots\<close>

lemma list_all_drop_more:
  assumes "list_all P (drop a xs)"
  shows "list_all P (drop (a + b) xs)"
proof -
  have "drop (a + b) xs = drop b (drop a xs)" by (simp add: add.commute)
  moreover have "set (drop b (drop a xs)) \<subseteq> set (drop a xs)" by (rule set_drop_subset)
  ultimately show ?thesis using assms by (auto simp: list_all_iff)
qed

lemma reserve_all_zero:
  assumes "cvec_reserve p c e d = Some (evs, Vec meta)"
  shows "list_all (\<lambda>b. b = 0) (data meta) \<and> spare_slots_zero meta"
  using assms
  by (auto simp: cvec_reserve_def Let_def spare_slots_zero_def list_all_iff
      split: if_splits dest: in_set_dropD)

lemma push_back_room_spare_zero:
  assumes wf: "cvec_wf meta" and lt: "size_f meta < capacity meta"
    and z: "spare_slots_zero meta"
    and some: "cvec_push_back env (Vec meta) elem = Some (evs, Vec meta')"
  shows "spare_slots_zero meta'"
proof -
  let ?s = "unat (size_f meta)" and ?t = "unat (typesize meta)"
  from lt have ne: "capacity meta \<noteq> size_f meta" by auto
  with some have len: "?t \<le> length elem"
    by (auto simp: push_back_no_growth memcpy_bytes_def split: if_splits)
  from push_back_room [OF wf lt len, of env] some obtain mem where
    st: "store_bytes (data meta) (?s * ?t) (take ?t elem) = Some mem"
    and m': "meta' = meta \<lparr> data := mem, size_f := size_f meta + 1 \<rparr>"
    by auto
  from len have "length (take ?t elem) = ?t" by simp
  with store_bytes_drop [OF st] have "drop (?s * ?t + ?t) mem = drop (?s * ?t + ?t) (data meta)"
    by simp
  moreover from z have "list_all (\<lambda>b. b = 0) (drop (?s * ?t + ?t) (data meta))"
    unfolding spare_slots_zero_def by (rule list_all_drop_more)
  moreover have "unat (size_f meta + 1) = Suc ?s" using lt by (rule unat_succ_less)
  ultimately show ?thesis
    by (simp add: spare_slots_zero_def m' add.commute)
qed

lemma erase_leaves_tail:
  assumes wf: "cvec_wf meta" and lt: "index < size_f meta"
    and some: "cvec_erase (Vec meta) index = Some (evs, Vec meta')"
  shows "drop (unat (size_f meta) * unat (typesize meta)) (data meta')
           = drop (unat (size_f meta) * unat (typesize meta)) (data meta)"
    and "destructor meta = None \<or> index + 1 < size_f meta \<Longrightarrow>
         elem_at meta' (unat (size_f meta) - 1) = elem_at meta (unat (size_f meta) - 1)"
proof -
  let ?i = "unat index" and ?s = "unat (size_f meta)" and ?t = "unat (typesize meta)"
  let ?n = "(?s - Suc ?i) * ?t"
  from erase_wf [OF wf lt] some obtain mem1 mem2 where
    d1: "drop (Suc ?i * ?t) mem1 = drop (Suc ?i * ?t) (data meta)"
    and n1: "destructor meta = None \<longrightarrow> mem1 = data meta"
    and st: "store_bytes mem1 (?i * ?t) (take ?n (drop (Suc ?i * ?t) mem1)) = Some mem2"
    and rg: "Suc ?i * ?t + ?n \<le> length mem1"
    and m': "meta' = meta \<lparr> data := mem2, size_f := size_f meta - 1 \<rparr>"
    by auto
  from lt have i_lt: "?i < ?s" by (simp add: word_less_nat_alt)
  from rg have "length (take ?n (drop (Suc ?i * ?t) mem1)) = ?n" by simp
  with store_bytes_drop [OF st] have "drop (?i * ?t + ?n) mem2 = drop (?i * ?t + ?n) mem1"
    by simp
  moreover have "?i * ?t + ?n = (?s - 1) * ?t"
    using i_lt by (simp add: add_mult_distrib [symmetric])
  ultimately have last: "drop ((?s - 1) * ?t) mem2 = drop ((?s - 1) * ?t) mem1"
    by simp
  have ord: "(?s - 1) * ?t \<le> ?s * ?t" "Suc ?i * ?t \<le> ?s * ?t"
    using i_lt by (simp_all add: mult_le_mono1 del: mult_Suc)
  from last ord(1) have "drop (?s * ?t) mem2 = drop (?s * ?t) mem1"
    by (rule drop_in_suffix)
  also from d1 ord(2) have "\<dots> = drop (?s * ?t) (data meta)"
    by (rule drop_in_suffix)
  finally show "drop (?s * ?t) (data meta') = drop (?s * ?t) (data meta)"
    by (simp add: m')
  assume "destructor meta = None \<or> index + 1 < size_f meta"
  then have "drop ((?s - 1) * ?t) mem1 = drop ((?s - 1) * ?t) (data meta)"
  proof
    assume "destructor meta = None"
    with n1 show ?thesis by simp
  next
    assume "index + 1 < size_f meta"
    then have "unat (index + 1) < ?s" by (simp add: word_less_nat_alt)
    moreover have "unat (index + 1) = Suc ?i" using lt by (rule unat_succ_less)
    ultimately have "Suc ?i \<le> ?s - 1" by simp
    then have "Suc ?i * ?t \<le> (?s - 1) * ?t" by (rule mult_le_mono1)
    with d1 show ?thesis by (rule drop_in_suffix)
  qed
  with last have "drop ((?s - 1) * ?t) mem2 = drop ((?s - 1) * ?t) (data meta)"
    by simp
  then show "elem_at meta' (?s - 1) = elem_at meta (?s - 1)"
    by (simp add: elem_at_def m')
qed

section \<open>Well-formedness along a run\<close>

text \<open>
  Well-formedness is what \<open>cvec_reserve\<close> establishes when its request
  \<open>32 + capacity * elem_sz\<close> does not wrap, and what every defined append and erasure keeps.
\<close>

lemma reserve_wf:
  assumes some: "cvec_reserve p c e d = Some (evs, Vec meta)"
    and fit: "32 + unat c * unat e < 2 ^ 64"
  shows "cvec_wf meta"
proof -
  from fit have "unat c * unat e < 2 ^ 64" by simp
  then have m: "unat (c * e) = unat c * unat e" by (rule unat_mult_exact)
  from some have nw: "\<not> sizeof_metadata + c * e < sizeof_metadata"
    by (simp add: cvec_reserve_def Let_def split: if_splits)
  from unat_meta_plus [OF nw] m
  have "unat (sizeof_metadata + c * e) - unat sizeof_metadata = unat c * unat e"
    by (simp add: sizeof_metadata_def)
  with some fit show ?thesis
    by (auto simp: cvec_reserve_def Let_def cvec_wf_def split: if_splits)
qed

lemma push_back_wf:
  assumes wf: "cvec_wf meta"
    and some: "cvec_push_back env (Vec meta) elem = Some (evs, Vec meta')"
  shows "cvec_wf meta'"
proof (cases "capacity meta = size_f meta")
  case False
  with wf have "unat (size_f meta) < unat (capacity meta)"
    by (simp add: cvec_wf_def word_unat_eq_iff)
  then have lt: "size_f meta < capacity meta" by (simp add: word_less_nat_alt)
  then have suc: "unat (size_f meta + 1) = Suc (unat (size_f meta))" by (rule unat_succ_less)
  from some False obtain mem where
    cpy: "memcpy_bytes (data meta) (unat (size_f meta * typesize meta)) elem
            (unat (typesize meta)) = Some mem"
    and m': "meta' = meta \<lparr> data := mem, size_f := size_f meta + 1 \<rparr>"
    by (auto simp: push_back_no_growth)
  from cpy have "length mem = length (data meta)"
    by (auto simp: memcpy_bytes_def split: if_splits dest: store_bytes_length)
  with wf \<open>unat (size_f meta) < unat (capacity meta)\<close> show ?thesis
    by (simp add: cvec_wf_def m' suc)
next
  case True
  let ?c = "unat (capacity meta)" and ?t = "unat (typesize meta)"
  note g = push_back_growth_arith [OF True some]
  from push_back_growth [OF True some]
  have ts: "typesize meta' = typesize meta"
    and cap: "capacity meta' = (if capacity meta = 0 then 1 else capacity meta * 2)"
    by auto
  from wf have "?c * ?t < 2 ^ 64" by (simp add: cvec_wf_def)
  then have w: "unat (capacity meta * typesize meta) = ?c * ?t" by (rule unat_mult_exact)
  have prod: "unat (capacity meta' * typesize meta') = unat (capacity meta') * ?t"
  proof (cases "capacity meta = 0")
    case z: True
    with cap ts show ?thesis by simp
  next
    case nz: False
    have "capacity meta * 2 * typesize meta
        = capacity meta * typesize meta + capacity meta * typesize meta"
      by (simp add: algebra_simps)
    with g(3) nz cap ts
    have l: "length (data meta')
        = unat (capacity meta * typesize meta + capacity meta * typesize meta)"
      by simp
    have "unat (capacity meta * typesize meta + capacity meta * typesize meta)
        = (?c * ?t + ?c * ?t) mod 2 ^ 64"
      by (simp only: unat_word_ariths(1) w) simp
    also have "\<dots> \<le> ?c * ?t + ?c * ?t" by (rule mod_less_eq_dividend)
    finally have up: "length (data meta') \<le> ?c * ?t + ?c * ?t" by (simp only: l)
    from push_back_growth [OF True some] obtain mem1 where
      "memset_bytes
         (realloc_bytes (realloc_fresh env) (data meta)
            (unat (sizeof_metadata + capacity meta' * typesize meta) - unat sizeof_metadata))
         ?c 0 (unat ((capacity meta' - capacity meta) * typesize meta)) = Some mem1"
      and fit: "\<not> sizeof_metadata + capacity meta' * typesize meta < sizeof_metadata"
      by (auto simp: cap)
    then have "?c + unat ((capacity meta * 2 - capacity meta) * typesize meta)
        \<le> unat (sizeof_metadata + capacity meta * 2 * typesize meta) - unat sizeof_metadata"
      using nz by (auto simp: cap memset_bytes_def realloc_bytes_length dest: store_bytes_in_range)
    moreover from fit nz
    have "\<not> sizeof_metadata + capacity meta * 2 * typesize meta < sizeof_metadata"
      by (simp add: cap)
    ultimately have "32 + (unat (capacity meta * typesize meta)
        + unat (capacity meta * typesize meta)) < 2 ^ 64"
      by (intro grow_double_word(1))
    then have "2 * ?c * ?t < 2 ^ 64" by (simp add: w)
    moreover from g(1) nz have "unat (capacity meta') = 2 * ?c" by simp
    ultimately have "unat (capacity meta') * ?t < 2 ^ 64" by simp
    then have "unat (capacity meta' * typesize meta) = unat (capacity meta') * ?t"
      by (rule unat_mult_exact)
    with ts show ?thesis by simp
  qed
  from g(1,2) True have "unat (size_f meta') \<le> unat (capacity meta')"
    by (cases "capacity meta = 0") (auto simp: unat_gt_0 Suc_le_eq)
  with g(3,4) prod ts show ?thesis
    by (simp add: cvec_wf_def)
qed

lemma erase_keeps_wf:
  assumes wf: "cvec_wf meta"
    and some: "cvec_erase (Vec meta) index = Some (evs, Vec meta')"
  shows "cvec_wf meta'"
proof (cases "index < size_f meta")
  case True
  from erase_wf [OF wf True] some obtain mem1 mem2 where
    l1: "length mem1 = length (data meta)"
    and st: "store_bytes mem1 (unat index * unat (typesize meta))
        (take ((unat (size_f meta) - Suc (unat index)) * unat (typesize meta))
           (drop (Suc (unat index) * unat (typesize meta)) mem1)) = Some mem2"
    and m': "meta' = meta \<lparr> data := mem2, size_f := size_f meta - 1 \<rparr>"
    by auto
  from True have "size_f meta \<noteq> 0" by (metis word_not_simps(1))
  then have "unat (size_f meta - 1) = unat (size_f meta) - 1" by (simp add: unat_minus_one)
  moreover from wf have "unat (size_f meta) \<le> unat (capacity meta)"
    by (simp add: cvec_wf_def)
  then have "unat (size_f meta) - 1 \<le> unat (capacity meta)"
    by simp
  ultimately show ?thesis
    using wf store_bytes_length [OF st] l1 by (simp add: cvec_wf_def m')
next
  case False
  then have "size_f meta \<le> index" by simp
  with some wf show ?thesis by (simp add: cvec_erase_def)
qed

lemma run_operations_wf:
  assumes "cvec_wf meta" and "run_operations (Vec meta) xs = Some (Vec meta')"
  shows "cvec_wf meta'"
  using assms
proof (induction xs arbitrary: meta)
  case Nil
  then show ?case by simp
next
  case (Cons x xs)
  from Cons.prems(2) obtain h1 where a: "apply_operation (Vec meta) x = Some h1"
    and r: "run_operations h1 xs = Some (Vec meta')"
    by (auto split: option.splits)
  have "\<exists>meta1. h1 = Vec meta1 \<and> cvec_wf meta1"
  proof (cases x)
    case (Push_back env elem)
    with a obtain evs where s: "cvec_push_back env (Vec meta) elem = Some (evs, h1)"
      by auto
    from push_back_Vec [OF s] obtain meta1 where "h1 = Vec meta1" ..
    with s push_back_wf [OF Cons.prems(1)] show ?thesis by blast
  next
    case (Erase index)
    with a obtain evs where s: "cvec_erase (Vec meta) index = Some (evs, h1)"
      by auto
    then have "\<exists>meta1. h1 = Vec meta1"
      by (cases "index < size_f meta")
        (auto simp: cvec_erase_def Let_def split: if_splits option.splits Option.bind_splits)
    with s erase_keeps_wf [OF Cons.prems(1)] show ?thesis by blast
  qed
  then obtain meta1 where "h1 = Vec meta1" "cvec_wf meta1" by blast
  with Cons.IH r show ?case by blast
qed

text \<open>
  When a growing append is defined: \<open>realloc\<close> succeeds, the doubled request fits 64 bits,
  the element is readable, and the elements are at least one byte wide unless the buffer has
  no slot yet.
\<close>

lemma push_back_growth_defined:
  assumes wf: "cvec_wf meta" and full: "capacity meta = size_f meta"
    and ok: "realloc_result env \<noteq> 0"
    and len: "unat (typesize meta) \<le> length elem"
    and fit: "32 + (if capacity meta = 0 then 1 else 2 * unat (capacity meta))
                   * unat (typesize meta) < 2 ^ 64"
    and wide: "capacity meta = 0 \<or> typesize meta \<noteq> 0"
  shows "\<exists>evs meta'. cvec_push_back env (Vec meta) elem = Some (evs, Vec meta')"
proof -
  let ?c = "unat (capacity meta)" and ?t = "unat (typesize meta)"
  let ?new = "if capacity meta = 0 then 1 else capacity meta * 2"
  let ?nc = "if capacity meta = 0 then 1 else 2 * ?c"
  have t1: "capacity meta \<noteq> 0 \<Longrightarrow> 1 \<le> ?t" "capacity meta \<noteq> 0 \<Longrightarrow> 1 \<le> ?c"
    using wide by (simp_all add: Suc_le_eq unat_gt_0)
  have c2: "2 * ?c < 2 ^ 64" if nz: "capacity meta \<noteq> 0"
  proof -
    from t1(1) [OF nz] have "(2 * ?c) * 1 \<le> (2 * ?c) * ?t" by (intro mult_le_mono2)
    then have "2 * ?c \<le> 2 * ?c * ?t" by simp
    moreover from fit nz have "2 * ?c * ?t < 2 ^ 64" by simp
    ultimately show ?thesis by (rule le_less_trans)
  qed
  have un: "unat ?new = ?nc"
    using c2 by (simp add: unat_double)
  from fit have "unat ?new * ?t < 2 ^ 64" by (simp only: un)
  then have up: "unat (?new * typesize meta) = ?nc * ?t"
    by (simp only: unat_mult_exact un)
  have "unat (sizeof_metadata + ?new * typesize meta)
      = (unat sizeof_metadata + unat (?new * typesize meta)) mod 2 ^ 64"
    by (simp only: unat_word_ariths(1)) simp
  also have "\<dots> = 32 + ?nc * ?t"
    using fit by (simp only: up) (simp add: sizeof_metadata_def)
  finally have tot: "unat (sizeof_metadata + ?new * typesize meta) = 32 + ?nc * ?t" .
  then have nw: "\<not> sizeof_metadata + ?new * typesize meta < sizeof_metadata"
    by (simp only: word_less_nat_alt tot) (simp add: sizeof_metadata_def)
  have rl: "unat (sizeof_metadata + ?new * typesize meta) - unat sizeof_metadata = ?nc * ?t"
    by (simp only: tot) (simp add: sizeof_metadata_def)
  from wf have ct: "?c * ?t < 2 ^ 64" by (simp add: cvec_wf_def)
  then have w: "unat (capacity meta * typesize meta) = ?c * ?t" by (rule unat_mult_exact)
  have "(?new - capacity meta) * typesize meta
      = (if capacity meta = 0 then typesize meta else capacity meta * typesize meta)"
    by (simp add: algebra_simps)
  then have n: "unat ((?new - capacity meta) * typesize meta)
      = (if capacity meta = 0 then ?t else ?c * ?t)"
    by (simp add: w)
  have b1: "?c + (if capacity meta = 0 then ?t else ?c * ?t) \<le> ?nc * ?t"
  proof (cases "capacity meta = 0")
    case True
    then show ?thesis by simp
  next
    case False
    from t1(1) [OF False] have "?c * 1 \<le> ?c * ?t" by (intro mult_le_mono2)
    with False show ?thesis by simp
  qed
  have b2: "?c * ?t + ?t \<le> ?nc * ?t"
  proof (cases "capacity meta = 0")
    case True
    then show ?thesis by simp
  next
    case False
    from t1(2) [OF False] have "1 * ?t \<le> ?c * ?t" by (intro mult_le_mono1)
    with False show ?thesis by simp
  qed
  let ?blk = "realloc_bytes (realloc_fresh env) (data meta) (?nc * ?t)"
  from b1 obtain mem1 where
    set: "memset_bytes ?blk ?c 0 (if capacity meta = 0 then ?t else ?c * ?t) = Some mem1"
    by (simp add: memset_bytes_def store_bytes_def realloc_bytes_length)
  then have l1: "length mem1 = ?nc * ?t"
    by (simp add: memset_bytes_def store_bytes_length [of _ _ _ mem1] realloc_bytes_length)
  with b2 len obtain mem2 where
    cpy: "memcpy_bytes mem1 (?c * ?t) elem ?t = Some mem2"
    by (simp add: memcpy_bytes_def store_bytes_def)
  have "cvec_push_back env (Vec meta) elem =
      Some ([Realloc_call (addr meta - sizeof_metadata)
               (sizeof_metadata + ?new * typesize meta)],
            Vec (meta \<lparr> addr := realloc_result env + sizeof_metadata, data := mem2,
                         capacity := ?new, size_f := size_f meta + 1 \<rparr>))"
    unfolding cvec_push_back_def Let_def
    using full [symmetric] ok nw set cpy
    by (simp add: rl n w)
  then show ?thesis by blast
qed

section \<open>When an append is defined\<close>

lemma push_back_defined:
  assumes wf: "cvec_wf meta" and ad: "append_defined env meta elem"
  shows "\<exists>evs meta'. cvec_push_back env (Vec meta) elem = Some (evs, Vec meta')"
proof (cases "capacity meta = size_f meta")
  case True
  with ad have "realloc_result env \<noteq> 0" "unat (typesize meta) \<le> length elem"
    "32 + (if capacity meta = 0 then 1 else 2 * unat (capacity meta))
           * unat (typesize meta) < 2 ^ 64"
    "capacity meta = 0 \<or> typesize meta \<noteq> 0"
    by (simp_all add: append_defined_def)
  with wf True show ?thesis by (intro push_back_growth_defined)
next
  case False
  with wf have "unat (size_f meta) < unat (capacity meta)"
    by (simp add: cvec_wf_def word_unat_eq_iff)
  then have lt: "size_f meta < capacity meta" by (simp add: word_less_nat_alt)
  from ad have len: "unat (typesize meta) \<le> length elem" by (simp add: append_defined_def)
  from push_back_room [OF wf lt len, of env] show ?thesis by blast
qed

lemma push_back_defined_only:
  assumes wf: "cvec_wf meta"
    and some: "cvec_push_back env (Vec meta) elem = Some (evs, h)"
  shows "append_defined env meta elem"
proof (cases "capacity meta = size_f meta")
  case False
  with some have "unat (typesize meta) \<le> length elem"
    by (auto simp: push_back_no_growth memcpy_bytes_def split: if_splits)
  with False show ?thesis by (simp add: append_defined_def)
next
  case True
  let ?c = "unat (capacity meta)" and ?t = "unat (typesize meta)"
  let ?new = "if capacity meta = 0 then 1 else capacity meta * 2"
  from push_back_growth [OF True some] obtain mem1 mem2 where
    ok: "realloc_result env \<noteq> 0"
    and fit: "\<not> sizeof_metadata + ?new * typesize meta < sizeof_metadata"
    and set: "memset_bytes
       (realloc_bytes (realloc_fresh env) (data meta)
          (unat (sizeof_metadata + ?new * typesize meta) - unat sizeof_metadata))
       ?c 0 (unat ((?new - capacity meta) * typesize meta)) = Some mem1"
    and cpy: "memcpy_bytes mem1 (unat (size_f meta * typesize meta)) elem ?t = Some mem2"
    by blast
  from cpy have len: "?t \<le> length elem"
    by (simp add: memcpy_bytes_def split: if_splits)
  from wf have "?c * ?t < 2 ^ 64" by (simp add: cvec_wf_def)
  then have w: "unat (capacity meta * typesize meta) = ?c * ?t" by (rule unat_mult_exact)
  have "32 + (if capacity meta = 0 then 1 else 2 * ?c) * ?t < 2 ^ 64 \<and>
        (capacity meta = 0 \<or> typesize meta \<noteq> 0)"
  proof (cases "capacity meta = 0")
    case z: True
    with fit have "\<not> sizeof_metadata + typesize meta < sizeof_metadata" by simp
    then have "unat (sizeof_metadata + typesize meta) = 32 + ?t" by (rule unat_meta_plus)
    moreover have "unat (sizeof_metadata + typesize meta) < 2 ^ 64"
      using unsigned_less [of "sizeof_metadata + typesize meta", where ?'a = nat] by simp
    ultimately have "32 + ?t < 2 ^ 64" by simp
    with z show ?thesis by simp
  next
    case nz: False
    from set nz have inb: "?c + unat ((capacity meta * 2 - capacity meta) * typesize meta)
        \<le> unat (sizeof_metadata + capacity meta * 2 * typesize meta) - unat sizeof_metadata"
      by (auto simp: memset_bytes_def realloc_bytes_length dest: store_bytes_in_range)
    from fit nz
    have fit': "\<not> sizeof_metadata + capacity meta * 2 * typesize meta < sizeof_metadata"
      by simp
    note g = grow_double_word(1,2) [OF fit' inb]
    from g(1) have f: "32 + 2 * ?c * ?t < 2 ^ 64" by (simp add: w)
    from nz have "0 < ?c" by (simp add: unat_gt_0)
    with g(2) have "?t \<noteq> 0" by (auto simp: w)
    then have "typesize meta \<noteq> 0" by (auto simp: unat_eq_0)
    with f nz show ?thesis by simp
  qed
  with ok len show ?thesis unfolding append_defined_def by blast
qed

lemma push_back_defined_iff:
  assumes "cvec_wf meta"
  shows "cvec_push_back env (Vec meta) elem \<noteq> None \<longleftrightarrow> append_defined env meta elem"
proof
  assume "cvec_push_back env (Vec meta) elem \<noteq> None"
  then obtain evs h where "cvec_push_back env (Vec meta) elem = Some (evs, h)"
    by auto
  with assms show "append_defined env meta elem" by (rule push_back_defined_only)
next
  assume "append_defined env meta elem"
  from push_back_defined [OF assms this] show "cvec_push_back env (Vec meta) elem \<noteq> None"
    by auto
qed

lemma push_back_typesize:
  assumes "cvec_push_back env (Vec meta) elem = Some (evs, Vec meta')"
  shows "typesize meta' = typesize meta"
proof (cases "capacity meta = size_f meta")
  case True
  from push_back_growth [OF True assms] show ?thesis by auto
next
  case False
  with assms show ?thesis by (auto simp: push_back_no_growth)
qed

text \<open>
  A run of appends is defined when every element is readable, every \<open>realloc\<close> succeeds,
  the elements are at least one byte wide, and twice the final number of elements still fits
  a block of 64-bit size.
\<close>

lemma push_run_defined:
  assumes "cvec_wf meta"
    and "typesize meta \<noteq> 0"
    and "list_all (\<lambda>(env, elem). realloc_result env \<noteq> 0 \<and>
                     unat (typesize meta) \<le> length elem) xs"
    and "32 + 2 * (unat (size_f meta) + length xs) * unat (typesize meta) < 2 ^ 64"
  shows "\<exists>meta'. run_operations (Vec meta) (map (\<lambda>(env, elem). Push_back env elem) xs)
           = Some (Vec meta')"
  using assms
proof (induction xs arbitrary: meta)
  case Nil
  then show ?case by simp
next
  case (Cons x xs)
  let ?s = "unat (size_f meta)" and ?c = "unat (capacity meta)" and ?t = "unat (typesize meta)"
  obtain env elem where x: "x = (env, elem)" by (cases x)
  from Cons.prems(3) x have ok: "realloc_result env \<noteq> 0" "?t \<le> length elem"
    and rest: "list_all (\<lambda>(env, elem). realloc_result env \<noteq> 0 \<and> ?t \<le> length elem) xs"
    by simp_all
  have big: "32 + 2 * (?s + Suc (length xs)) * ?t < 2 ^ 64"
    using Cons.prems(4) by simp
  have "32 + (if capacity meta = 0 then 1 else 2 * ?c) * ?t < 2 ^ 64"
    if full: "capacity meta = size_f meta"
  proof -
    have "(if capacity meta = 0 then 1 else 2 * ?c) \<le> 2 * (?s + Suc (length xs))"
      using full by simp
    then have "(if capacity meta = 0 then 1 else 2 * ?c) * ?t
        \<le> 2 * (?s + Suc (length xs)) * ?t"
      by (rule mult_le_mono1)
    with big show ?thesis by linarith
  qed
  with ok Cons.prems(2) have ad: "append_defined env meta elem"
    unfolding append_defined_def by blast
  from push_back_defined [OF Cons.prems(1) ad] obtain evs meta1 where
    p: "cvec_push_back env (Vec meta) elem = Some (evs, Vec meta1)"
    by blast
  have wf1: "cvec_wf meta1" using Cons.prems(1) p by (rule push_back_wf)
  have ts1: "typesize meta1 = typesize meta" using p by (rule push_back_typesize)
  have "unat (size_f meta1) = Suc ?s"
  proof (cases "capacity meta = size_f meta")
    case True
    from push_back_growth_arith(2) [OF True p] show ?thesis .
  next
    case False
    with Cons.prems(1) have "?s < ?c"
      by (simp add: cvec_wf_def word_unat_eq_iff)
    then have "size_f meta < capacity meta" by (simp add: word_less_nat_alt)
    then have "unat (size_f meta + 1) = Suc ?s" by (rule unat_succ_less)
    with p False show ?thesis by (auto simp: push_back_no_growth)
  qed
  with big have big1:
    "32 + 2 * (unat (size_f meta1) + length xs) * unat (typesize meta1) < 2 ^ 64"
    by (simp add: ts1)
  from Cons.prems(2) have nz1: "typesize meta1 \<noteq> 0" by (simp add: ts1)
  from rest have rest1: "list_all (\<lambda>(env, elem). realloc_result env \<noteq> 0 \<and>
      unat (typesize meta1) \<le> length elem) xs"
    by (simp only: ts1)
  from Cons.IH [OF wf1 nz1 rest1 big1] obtain meta' where
    "run_operations (Vec meta1) (map (\<lambda>(env, elem). Push_back env elem) xs) = Some (Vec meta')"
    by blast
  with p x have "run_operations (Vec meta) (map (\<lambda>(env, elem). Push_back env elem) (x # xs))
      = Some (Vec meta')"
    by simp
  then show ?case by (intro exI)
qed

section \<open>What a defined append returns\<close>

lemma push_back_result_appends:
  assumes wf: "cvec_wf meta"
    and some: "cvec_push_back env (Vec meta) elem = Some (evs, h')"
  shows "\<exists>meta'. h' = Vec meta' \<and>
           cvec_get_sz h' = cvec_get_sz (Vec meta) + 1 \<and>
           unat (size_f meta') = unat (size_f meta) + 1 \<and>
           elem_at meta' (unat (size_f meta') - 1) = take (unat (typesize meta)) elem"
proof -
  let ?s = "unat (size_f meta)" and ?t = "unat (typesize meta)"
  from push_back_Vec [OF some] obtain meta' where h': "h' = Vec meta'" ..
  from wf have "?s \<le> unat (capacity meta)" by (simp add: cvec_wf_def)
  with wf have off: "unat (size_f meta * typesize meta) = ?s * ?t"
    by (rule wf_offset)
  have *: "size_f meta' = size_f meta + 1 \<and> unat (size_f meta') = Suc ?s \<and>
           typesize meta' = typesize meta \<and>
           (\<exists>mem. memcpy_bytes mem (?s * ?t) elem ?t = Some (data meta'))"
  proof (cases "capacity meta = size_f meta")
    case True
    from push_back_growth [OF True some] h' off
    have "size_f meta' = size_f meta + 1" "typesize meta' = typesize meta"
      "\<exists>mem. memcpy_bytes mem (?s * ?t) elem ?t = Some (data meta')"
      by auto
    moreover from push_back_growth_arith(2) [OF True some [unfolded h']]
    have "unat (size_f meta') = Suc ?s" .
    ultimately show ?thesis by simp
  next
    case False
    with wf have "size_f meta < capacity meta"
      by (simp add: cvec_wf_def word_less_nat_alt word_le_nat_alt) (metis le_neq_implies_less word_unat_eq_iff)
    then have "unat (size_f meta + 1) = Suc ?s" by (rule unat_succ_less)
    with some h' False off show ?thesis
      by (auto simp: push_back_no_growth)
  qed
  then obtain mem where cpy: "memcpy_bytes mem (?s * ?t) elem ?t = Some (data meta')"
    by blast
  then have len: "?t \<le> length elem"
    and st: "store_bytes mem (?s * ?t) (take ?t elem) = Some (data meta')"
    by (simp_all add: memcpy_bytes_def split: if_splits)
  from store_bytes_slice [OF st] len
  have "take ?t (drop (?s * ?t) (data meta')) = take ?t elem" by simp
  moreover from * have "unat (size_f meta') = Suc ?s" and "typesize meta' = typesize meta"
    by blast+
  then have "unat (size_f meta') - 1 = ?s" "typesize meta' = typesize meta"
    by simp_all
  ultimately have "elem_at meta' (unat (size_f meta') - 1) = take ?t elem"
    by (simp only: elem_at_def)
  moreover from * have "cvec_get_sz (Vec meta') = cvec_get_sz (Vec meta) + 1"
    by (simp add: cvec_get_sz_def)
  moreover from * have "unat (size_f meta') = Suc (unat (size_f meta))"
    by blast
  then have "unat (size_f meta') = unat (size_f meta) + 1"
    by (simp only: Suc_eq_plus1)
  ultimately show ?thesis
    unfolding h' by blast
qed

section \<open>Growth and the stored elements\<close>

text \<open>
  C1 says that a growing append keeps the bytes of every element stored before and leaves
  the slots added by the growth zero-filled. The source calls
  \<open>memset((uint8*)vec + capacity, 0, (new_capacity - capacity) * elem_sz)\<close>: the length is
  scaled by the element size, the start is not. With elements wider than one byte the zeroed
  range therefore starts inside the live elements and stops short of the end of the block.

  Below, a vector of 2-byte elements is created, \<open>{1, 2}\<close> is appended (no growth), then
  \<open>{3, 4}\<close> (growth from capacity 1 to 2): element 0 reads \<open>{1, 0}\<close> afterwards. A third
  append \<open>{5, 6}\<close> grows to capacity 4: element 1 reads \<open>{0, 0}\<close>, and the new slot 3 holds
  the bytes \<open>realloc\<close> handed out (170 here), not zeros.
\<close>

theorem growing_push_back_overwrites_elements:
  "cvec_create 1024 2 None
     = Some ([Malloc_call 34],
         Vec \<lparr> size_f = 0, capacity = 1, typesize = 2, destructor = None, addr = 1056,
               data = [0, 0] \<rparr>) \<and>
   cvec_push_back \<lparr> realloc_result = 4096, realloc_fresh = (\<lambda>_. 170) \<rparr>
     (Vec \<lparr> size_f = 0, capacity = 1, typesize = 2, destructor = None, addr = 1056,
            data = [0, 0] \<rparr>) [1, 2]
     = Some ([],
         Vec \<lparr> size_f = 1, capacity = 1, typesize = 2, destructor = None, addr = 1056,
               data = [1, 2] \<rparr>) \<and>
   elem_at \<lparr> size_f = 1, capacity = 1, typesize = 2, destructor = None, addr = 1056,
             data = [1, 2] \<rparr> 0 = [1, 2] \<and>
   cvec_push_back \<lparr> realloc_result = 4096, realloc_fresh = (\<lambda>_. 170) \<rparr>
     (Vec \<lparr> size_f = 1, capacity = 1, typesize = 2, destructor = None, addr = 1056,
            data = [1, 2] \<rparr>) [3, 4]
     = Some ([Realloc_call 1024 36],
         Vec \<lparr> size_f = 2, capacity = 2, typesize = 2, destructor = None, addr = 4128,
               data = [1, 0, 3, 4] \<rparr>) \<and>
   elem_at \<lparr> size_f = 2, capacity = 2, typesize = 2, destructor = None, addr = 4128,
             data = [1, 0, 3, 4] \<rparr> 0 = [1, 0] \<and>
   cvec_push_back \<lparr> realloc_result = 8192, realloc_fresh = (\<lambda>_. 170) \<rparr>
     (Vec \<lparr> size_f = 2, capacity = 2, typesize = 2, destructor = None, addr = 4128,
            data = [1, 0, 3, 4] \<rparr>) [5, 6]
     = Some ([Realloc_call 4096 40],
         Vec \<lparr> size_f = 3, capacity = 4, typesize = 2, destructor = None, addr = 8224,
               data = [1, 0, 0, 0, 5, 6, 170, 170] \<rparr>) \<and>
   elem_at \<lparr> size_f = 3, capacity = 4, typesize = 2, destructor = None, addr = 8224,
             data = [1, 0, 0, 0, 5, 6, 170, 170] \<rparr> 1 = [0, 0] \<and>
   elem_at \<lparr> size_f = 3, capacity = 4, typesize = 2, destructor = None, addr = 8224,
             data = [1, 0, 0, 0, 5, 6, 170, 170] \<rparr> 3 = [170, 170]"
  by (simp add: run_simps elem_at_def)

section \<open>Zero-filled spare slots\<close>

text \<open>
  C2 says that in every reachable state the slots in \<open>[size, capacity)\<close> are zero, also
  right after an erase. \<open>cvec_erase\<close> never writes zeros: it shifts the tail down and
  decrements the size, so the slot it vacates keeps the bytes of the former last element.
  Below, a vector of 1-byte elements is created (capacity 1), \<open>{5}\<close> is appended without
  growth and index 0 is erased: size 0, capacity 1, and slot 0 still holds 5.
\<close>

theorem erase_leaves_stale_bytes:
  "cvec_create 1024 1 None
     = Some ([Malloc_call 33],
         Vec \<lparr> size_f = 0, capacity = 1, typesize = 1, destructor = None, addr = 1056,
               data = [0] \<rparr>) \<and>
   run_operations
     (Vec \<lparr> size_f = 0, capacity = 1, typesize = 1, destructor = None, addr = 1056,
            data = [0] \<rparr>)
     [Push_back \<lparr> realloc_result = 4096, realloc_fresh = (\<lambda>_. 170) \<rparr> [5], Erase 0]
     = Some (Vec \<lparr> size_f = 0, capacity = 1, typesize = 1, destructor = None, addr = 1056,
                   data = [5] \<rparr>) \<and>
   elem_at \<lparr> size_f = 0, capacity = 1, typesize = 1, destructor = None, addr = 1056,
             data = [5] \<rparr> 0 = [5] \<and>
   \<not> spare_slots_zero \<lparr> size_f = 0, capacity = 1, typesize = 1, destructor = None,
             addr = 1056, data = [5] \<rparr>"
  by (simp add: run_simps elem_at_def spare_slots_zero_def word_le_nat_alt)

text \<open>
  C2 as amended. Right after \<open>cvec_reserve\<close> or \<open>cvec_create\<close> every byte of the storage
  is zero, and an append that does not grow keeps the slots in \<open>[size, capacity)\<close> zero.
  \<open>cvec_erase\<close> at a live index clears nothing: the slots at the old size and beyond are
  as they were, and the vacated slot, at index old size - 1, keeps the bytes of the former last
  element (when no destructor is set, or the erased index was not the last one), so it is zero
  only if that element was. Nothing is said here about a growing append.
\<close>

theorem spare_slots_policy:
  "(cvec_reserve p c e d = Some (evs0, Vec meta0) \<or> cvec_create p e d = Some (evs0, Vec meta0)
      \<longrightarrow> list_all (\<lambda>b. b = 0) (data meta0) \<and> spare_slots_zero meta0) \<and>
   (cvec_wf meta \<and> size_f meta < capacity meta \<and> spare_slots_zero meta \<and>
    cvec_push_back env (Vec meta) elem = Some (evs, Vec meta')
      \<longrightarrow> spare_slots_zero meta') \<and>
   (cvec_wf meta \<and> index < size_f meta \<and>
    cvec_erase (Vec meta) index = Some (evs', Vec meta'')
      \<longrightarrow> drop (unat (size_f meta) * unat (typesize meta)) (data meta'')
            = drop (unat (size_f meta) * unat (typesize meta)) (data meta) \<and>
          (destructor meta = None \<or> index + 1 < size_f meta \<longrightarrow>
             elem_at meta'' (unat (size_f meta) - 1) = elem_at meta (unat (size_f meta) - 1)))"
proof (intro conjI impI)
  assume "cvec_reserve p c e d = Some (evs0, Vec meta0)
      \<or> cvec_create p e d = Some (evs0, Vec meta0)"
  then have "\<exists>c'. cvec_reserve p c' e d = Some (evs0, Vec meta0)"
    by (auto simp: cvec_create_def)
  then show "list_all (\<lambda>b. b = 0) (data meta0)" and "spare_slots_zero meta0"
    using reserve_all_zero by blast+
next
  assume "cvec_wf meta \<and> size_f meta < capacity meta \<and> spare_slots_zero meta \<and>
    cvec_push_back env (Vec meta) elem = Some (evs, Vec meta')"
  then show "spare_slots_zero meta'"
    using push_back_room_spare_zero by blast
next
  assume a: "cvec_wf meta \<and> index < size_f meta \<and>
    cvec_erase (Vec meta) index = Some (evs', Vec meta'')"
  then show "drop (unat (size_f meta) * unat (typesize meta)) (data meta'')
            = drop (unat (size_f meta) * unat (typesize meta)) (data meta)"
    using erase_leaves_tail(1) by blast
  assume "destructor meta = None \<or> index + 1 < size_f meta"
  with a show "elem_at meta'' (unat (size_f meta) - 1) = elem_at meta (unat (size_f meta) - 1)"
    using erase_leaves_tail(2) by blast
qed

theorem spare_slots_policy_witness:
  "cvec_reserve 1024 2 2 None
     = Some ([Malloc_call 36],
         Vec \<lparr> size_f = 0, capacity = 2, typesize = 2, destructor = None, addr = 1056,
               data = [0, 0, 0, 0] \<rparr>) \<and>
   spare_slots_zero \<lparr> size_f = 0, capacity = 2, typesize = 2, destructor = None, addr = 1056,
               data = [0, 0, 0, 0] \<rparr> \<and>
   cvec_wf \<lparr> size_f = 0, capacity = 2, typesize = 2, destructor = None, addr = 1056,
               data = [0, 0, 0, 0] \<rparr> \<and>
   cvec_push_back \<lparr> realloc_result = 4096, realloc_fresh = (\<lambda>_. 170) \<rparr>
     (Vec \<lparr> size_f = 0, capacity = 2, typesize = 2, destructor = None, addr = 1056,
            data = [0, 0, 0, 0] \<rparr>) [1, 2]
     = Some ([],
         Vec \<lparr> size_f = 1, capacity = 2, typesize = 2, destructor = None, addr = 1056,
               data = [1, 2, 0, 0] \<rparr>) \<and>
   spare_slots_zero \<lparr> size_f = 1, capacity = 2, typesize = 2, destructor = None, addr = 1056,
               data = [1, 2, 0, 0] \<rparr> \<and>
   cvec_wf \<lparr> size_f = 2, capacity = 3, typesize = 1, destructor = None, addr = 1056,
               data = [7, 9, 0] \<rparr> \<and>
   cvec_erase (Vec \<lparr> size_f = 2, capacity = 3, typesize = 1, destructor = None, addr = 1056,
               data = [7, 9, 0] \<rparr>) 0
     = Some ([],
         Vec \<lparr> size_f = 1, capacity = 3, typesize = 1, destructor = None, addr = 1056,
               data = [9, 9, 0] \<rparr>) \<and>
   elem_at \<lparr> size_f = 1, capacity = 3, typesize = 1, destructor = None, addr = 1056,
               data = [9, 9, 0] \<rparr> 1
     = elem_at \<lparr> size_f = 2, capacity = 3, typesize = 1, destructor = None, addr = 1056,
               data = [7, 9, 0] \<rparr> 1"
proof -
  let ?env = "\<lparr> realloc_result = 4096, realloc_fresh = (\<lambda>_. 170) \<rparr>"
  let ?fresh = "\<lparr> size_f = 0, capacity = 2, typesize = 2, destructor = None, addr = 1056,
               data = [0, 0, 0, 0] \<rparr> :: cvec"
  let ?one = "\<lparr> size_f = 1, capacity = 2, typesize = 2, destructor = None, addr = 1056,
               data = [1, 2, 0, 0] \<rparr> :: cvec"
  let ?two = "\<lparr> size_f = 2, capacity = 3, typesize = 1, destructor = None, addr = 1056,
               data = [7, 9, 0] \<rparr> :: cvec"
  let ?erased = "\<lparr> size_f = 1, capacity = 3, typesize = 1, destructor = None, addr = 1056,
               data = [9, 9, 0] \<rparr> :: cvec"
  note policy = spare_slots_policy [where p = 1024 and c = 2 and e = 2 and d = None
      and ?evs0.0 = "[Malloc_call 36]" and ?meta0.0 = ?fresh
      and meta = ?fresh and env = ?env and elem = "[1, 2]" and evs = "[]" and meta' = ?one]
  note policy' = spare_slots_policy [where meta = ?two and index = 0 and evs' = "[]"
      and meta'' = ?erased]
  have res: "cvec_reserve 1024 2 2 None = Some ([Malloc_call 36], Vec ?fresh)"
    by (simp add: run_simps)
  have wf: "cvec_wf ?fresh" "cvec_wf ?two"
    by (simp_all add: cvec_wf_def)
  have push: "cvec_push_back ?env (Vec ?fresh) [1, 2] = Some ([], Vec ?one)"
    by (simp add: run_simps)
  have erase: "cvec_erase (Vec ?two) 0 = Some ([], Vec ?erased)"
    by (simp add: run_simps word_le_nat_alt)
  from policy res have z0: "spare_slots_zero ?fresh" by blast
  from policy wf(1) z0 push have z1: "spare_slots_zero ?one"
    by (simp add: word_less_nat_alt)
  from policy' wf(2) erase have "elem_at ?erased 1 = elem_at ?two 1"
    by (simp add: word_less_nat_alt)
  with res z0 wf push z1 erase show ?thesis by (intro conjI)
qed

section \<open>Capacity bounds the size\<close>

text \<open>
  C3. Every block reached from \<open>cvec_reserve\<close> or \<open>cvec_create\<close> by any sequence of
  appends and erasures has \<open>capacity \<ge> size\<close>, and each further operation on it
  preserves that. (A sequence reaches a block when none of its operations has undefined
  behaviour; the lemmas \<open>size_le_capacity_push_back\<close> and \<open>size_le_capacity_erase\<close> give
  the preservation by one operation from any block with \<open>size \<le> capacity\<close>.)
\<close>

theorem capacity_ge_size_reachable:
  assumes "cvec_reserve p c e d = Some (evs, h0) \<or> cvec_create p e d = Some (evs, h0)"
    and "run_operations h0 xs = Some h"
  shows "cvec_get_capacity h \<ge> cvec_get_sz h \<and>
         (\<forall>x h'. apply_operation h x = Some h' \<longrightarrow> cvec_get_capacity h' \<ge> cvec_get_sz h')"
proof -
  from assms(1) have "cvec_get_sz h0 \<le> cvec_get_capacity h0"
    by (auto simp: cvec_create_def cvec_reserve_def Let_def cvec_get_sz_def
        cvec_get_capacity_def split: if_splits)
  from size_le_capacity_run [OF this assms(2)]
  have "cvec_get_sz h \<le> cvec_get_capacity h" .
  then show ?thesis
    using size_le_capacity_apply by blast
qed

theorem capacity_ge_size_reachable_witness:
  "cvec_create 1024 2 None = Some ([Malloc_call 34],
     Vec \<lparr> size_f = 0, capacity = 1, typesize = 2, destructor = None, addr = 1056,
           data = [0, 0] \<rparr>) \<and>
   run_operations
     (Vec \<lparr> size_f = 0, capacity = 1, typesize = 2, destructor = None, addr = 1056,
           data = [0, 0] \<rparr>)
     [Push_back \<lparr> realloc_result = 4096, realloc_fresh = (\<lambda>_. 170) \<rparr> [1, 2],
      Push_back \<lparr> realloc_result = 4096, realloc_fresh = (\<lambda>_. 170) \<rparr> [3, 4],
      Erase 0]
     = Some (Vec \<lparr> size_f = 1, capacity = 2, typesize = 2, destructor = None, addr = 4128,
           data = [3, 4, 3, 4] \<rparr>) \<and>
   cvec_get_capacity (Vec \<lparr> size_f = 1, capacity = 2, typesize = 2, destructor = None,
           addr = 4128, data = [3, 4, 3, 4] \<rparr>)
     \<ge> cvec_get_sz (Vec \<lparr> size_f = 1, capacity = 2, typesize = 2, destructor = None,
           addr = 4128, data = [3, 4, 3, 4] \<rparr>) \<and>
   apply_operation (Vec \<lparr> size_f = 1, capacity = 2, typesize = 2, destructor = None,
           addr = 4128, data = [3, 4, 3, 4] \<rparr>) (Erase 0)
     = Some (Vec \<lparr> size_f = 0, capacity = 2, typesize = 2, destructor = None,
           addr = 4128, data = [3, 4, 3, 4] \<rparr>) \<and>
   cvec_get_capacity (Vec \<lparr> size_f = 0, capacity = 2, typesize = 2, destructor = None,
           addr = 4128, data = [3, 4, 3, 4] \<rparr>)
     \<ge> cvec_get_sz (Vec \<lparr> size_f = 0, capacity = 2, typesize = 2, destructor = None,
           addr = 4128, data = [3, 4, 3, 4] \<rparr>)"
proof -
  let ?start = "Vec \<lparr> size_f = 0, capacity = 1, typesize = 2, destructor = None, addr = 1056,
           data = [0, 0] \<rparr>"
  let ?xs = "[Push_back \<lparr> realloc_result = 4096, realloc_fresh = (\<lambda>_. 170) \<rparr> [1, 2],
      Push_back \<lparr> realloc_result = 4096, realloc_fresh = (\<lambda>_. 170) \<rparr> [3, 4],
      Erase 0]"
  let ?reached = "Vec \<lparr> size_f = 1, capacity = 2, typesize = 2, destructor = None, addr = 4128,
           data = [3, 4, 3, 4] \<rparr>"
  let ?after = "Vec \<lparr> size_f = 0, capacity = 2, typesize = 2, destructor = None, addr = 4128,
           data = [3, 4, 3, 4] \<rparr>"
  have a: "cvec_create 1024 2 None = Some ([Malloc_call 34], ?start)"
    by (simp add: run_simps)
  have b: "run_operations ?start ?xs = Some ?reached"
    by (simp add: run_simps)
  have c: "apply_operation ?reached (Erase 0) = Some ?after"
    by (simp add: run_simps)
  from a have a': "cvec_reserve 1024 c 2 None = Some ([Malloc_call 34], ?start)
      \<or> cvec_create 1024 2 None = Some ([Malloc_call 34], ?start)" for c :: uint64
    by simp
  from capacity_ge_size_reachable [OF a' b] a b c show ?thesis
    by blast
qed

section \<open>Append and read back\<close>

text \<open>
  C4. \<open>cvec_push_back\<close> on a non-null handle (a well-formed block, under the conditions
  \<open>append_defined\<close> for the call to have defined behaviour) returns, with or without growth,
  a block whose size has grown by exactly one and whose element at index \<open>size - 1\<close>
  holds the bytes of the element passed in, that is the first \<open>typesize\<close> bytes that
  \<open>elem\<close> points to.
\<close>

theorem push_back_appends_element:
  assumes wf: "cvec_wf meta" and ad: "append_defined env meta elem"
  shows "\<exists>evs meta'.
           cvec_push_back env (Vec meta) elem = Some (evs, Vec meta') \<and>
           cvec_get_sz (Vec meta') = cvec_get_sz (Vec meta) + 1 \<and>
           unat (size_f meta') = unat (size_f meta) + 1 \<and>
           elem_at meta' (unat (size_f meta') - 1) = take (unat (typesize meta)) elem"
proof -
  from push_back_defined [OF wf ad] obtain evs meta' where
    p: "cvec_push_back env (Vec meta) elem = Some (evs, Vec meta')"
    by blast
  from push_back_result_appends [OF wf p]
  have "cvec_get_sz (Vec meta') = cvec_get_sz (Vec meta) + 1 \<and>
        unat (size_f meta') = unat (size_f meta) + 1 \<and>
        elem_at meta' (unat (size_f meta') - 1) = take (unat (typesize meta)) elem"
    by auto
  with p have "cvec_push_back env (Vec meta) elem = Some (evs, Vec meta') \<and>
        cvec_get_sz (Vec meta') = cvec_get_sz (Vec meta) + 1 \<and>
        unat (size_f meta') = unat (size_f meta) + 1 \<and>
        elem_at meta' (unat (size_f meta') - 1) = take (unat (typesize meta)) elem"
    by (rule conjI)
  then show ?thesis by (intro exI)
qed

theorem push_back_appends_element_witness:
  "cvec_wf \<lparr> size_f = 1, capacity = 1, typesize = 4, destructor = None, addr = 1056,
             data = [1, 2, 3, 4] \<rparr> \<and>
   append_defined \<lparr> realloc_result = 4096, realloc_fresh = (\<lambda>_. 170) \<rparr>
     \<lparr> size_f = 1, capacity = 1, typesize = 4, destructor = None, addr = 1056,
       data = [1, 2, 3, 4] \<rparr> [9, 8, 7, 6] \<and>
   cvec_push_back \<lparr> realloc_result = 4096, realloc_fresh = (\<lambda>_. 170) \<rparr>
     (Vec \<lparr> size_f = 1, capacity = 1, typesize = 4, destructor = None, addr = 1056,
             data = [1, 2, 3, 4] \<rparr>) [9, 8, 7, 6]
     = Some ([Realloc_call 1024 40],
         Vec \<lparr> size_f = 2, capacity = 2, typesize = 4, destructor = None, addr = 4128,
             data = [1, 0, 0, 0, 9, 8, 7, 6] \<rparr>) \<and>
   cvec_get_sz (Vec \<lparr> size_f = 2, capacity = 2, typesize = 4, destructor = None, addr = 4128,
             data = [1, 0, 0, 0, 9, 8, 7, 6] \<rparr>)
     = cvec_get_sz (Vec \<lparr> size_f = 1, capacity = 1, typesize = 4, destructor = None,
             addr = 1056, data = [1, 2, 3, 4] \<rparr>) + 1 \<and>
   elem_at \<lparr> size_f = 2, capacity = 2, typesize = 4, destructor = None, addr = 4128,
             data = [1, 0, 0, 0, 9, 8, 7, 6] \<rparr> 1 = [9, 8, 7, 6]"
proof -
  let ?m = "\<lparr> size_f = 1, capacity = 1, typesize = 4, destructor = None, addr = 1056,
             data = [1, 2, 3, 4] \<rparr> :: cvec"
  let ?m' = "\<lparr> size_f = 2, capacity = 2, typesize = 4, destructor = None, addr = 4128,
             data = [1, 0, 0, 0, 9, 8, 7, 6] \<rparr> :: cvec"
  let ?env = "\<lparr> realloc_result = 4096, realloc_fresh = (\<lambda>_. 170) \<rparr>"
  have wf: "cvec_wf ?m" by (simp add: cvec_wf_def)
  have ad: "append_defined ?env ?m [9, 8, 7, 6]" by (simp add: append_defined_def)
  have run: "cvec_push_back ?env (Vec ?m) [9, 8, 7, 6] = Some ([Realloc_call 1024 40], Vec ?m')"
    by (simp add: run_simps)
  from push_back_appends_element [OF wf ad] run
  have "cvec_get_sz (Vec ?m') = cvec_get_sz (Vec ?m) + 1"
    and "elem_at ?m' (unat (size_f ?m') - 1) = take (unat (typesize ?m)) [9, 8, 7, 6]"
    by auto
  with wf ad run show ?thesis by simp
qed

section \<open>Erase at a live index\<close>

text \<open>
  C5. On a non-null handle (a well-formed block) with \<open>index < size\<close>, \<open>cvec_erase\<close>
  invokes the destructor, when one is set, exactly once and on the bytes the element at
  \<open>index\<close> has before anything is moved; with no destructor set nothing is invoked. Then
  every element formerly at an index \<open>j > index\<close> is found at \<open>j - 1\<close> with its bytes,
  the elements below \<open>index\<close> are unchanged, the size has decreased by exactly one, and the
  capacity (with the element size and the address) is unchanged.
\<close>

theorem erase_compacts:
  assumes wf: "cvec_wf meta" and lt: "index < size_f meta"
  shows "\<exists>meta'.
      cvec_erase (Vec meta) index =
        Some ((case destructor meta of None \<Rightarrow> []
               | Some f \<Rightarrow> [Destructor_call (elem_at meta (unat index))]),
              Vec meta') \<and>
      size_f meta' = size_f meta - 1 \<and>
      unat (size_f meta') = unat (size_f meta) - 1 \<and>
      capacity meta' = capacity meta \<and>
      typesize meta' = typesize meta \<and>
      addr meta' = addr meta \<and>
      (\<forall>j < unat index. elem_at meta' j = elem_at meta j) \<and>
      (\<forall>j. unat index < j \<and> j < unat (size_f meta) \<longrightarrow>
           elem_at meta' (j - 1) = elem_at meta j)"
proof -
  let ?i = "unat index" and ?s = "unat (size_f meta)" and ?t = "unat (typesize meta)"
  let ?n = "(?s - Suc ?i) * ?t"
  from erase_wf [OF wf lt] obtain mem1 mem2 where
    t1: "take (?i * ?t) mem1 = take (?i * ?t) (data meta)"
    and d1: "drop (Suc ?i * ?t) mem1 = drop (Suc ?i * ?t) (data meta)"
    and st: "store_bytes mem1 (?i * ?t) (take ?n (drop (Suc ?i * ?t) mem1)) = Some mem2"
    and rg: "Suc ?i * ?t + ?n \<le> length mem1"
    and er: "cvec_erase (Vec meta) index =
        Some ((case destructor meta of None \<Rightarrow> []
               | Some f \<Rightarrow> [Destructor_call (elem_at meta ?i)]),
              Vec (meta \<lparr> data := mem2, size_f := size_f meta - 1 \<rparr>))"
    by blast
  let ?meta' = "meta \<lparr> data := mem2, size_f := size_f meta - 1 \<rparr>"
  from rg have ln: "length (take ?n (drop (Suc ?i * ?t) mem1)) = ?n" by simp
  from lt have "size_f meta \<noteq> 0" by (metis word_not_simps(1))
  then have sz: "unat (size_f ?meta') = ?s - 1" by (simp add: unat_minus_one)
  have below: "elem_at ?meta' j = elem_at meta j" if j: "j < ?i" for j
  proof -
    from slots_ordered [OF j] have le: "j * ?t + ?t \<le> ?i * ?t" .
    have "take ?t (drop (j * ?t) mem2) = take ?t (drop (j * ?t) mem1)"
      using st le by (rule slice_before_store)
    also have "\<dots> = take ?t (drop (j * ?t) (data meta))"
      using t1 le by (rule slice_in_prefix)
    finally show ?thesis by (simp add: elem_at_def)
  qed
  have above: "elem_at ?meta' (j - 1) = elem_at meta j" if j: "?i < j" "j < ?s" for j
  proof -
    define d where "d = j - Suc ?i"
    from j have jd: "j = Suc ?i + d" and d: "d < ?s - Suc ?i"
      by (simp_all add: d_def)
    from slots_ordered [OF d] have le: "d * ?t + ?t \<le> ?n" .
    from le ln have le': "d * ?t + ?t \<le> length (take ?n (drop (Suc ?i * ?t) mem1))"
      by (simp only:)
    have o: "(j - Suc 0) * ?t = ?i * ?t + d * ?t" and o': "j * ?t = Suc ?i * ?t + d * ?t"
      by (simp_all add: jd add_mult_distrib)
    have "take ?t (drop (?i * ?t + d * ?t) mem2)
        = take ?t (drop (d * ?t) (take ?n (drop (Suc ?i * ?t) mem1)))"
      using st le' by (rule slice_of_store)
    also have "\<dots> = take ?t (drop (d * ?t) (drop (Suc ?i * ?t) mem1))"
      using le by (simp add: drop_take min_def)
    also have "\<dots> = take ?t (drop (j * ?t) mem1)"
      by (simp only: o' drop_drop add.commute)
    also have "drop (j * ?t) mem1 = drop (j * ?t) (data meta)"
      using d1 by (rule drop_in_suffix) (simp add: o')
    finally show ?thesis by (simp add: elem_at_def o)
  qed
  have b: "\<forall>j < ?i. elem_at ?meta' j = elem_at meta j"
  proof (intro allI impI)
    fix j assume "j < ?i"
    then show "elem_at ?meta' j = elem_at meta j" by (rule below)
  qed
  have a: "\<forall>j. ?i < j \<and> j < ?s \<longrightarrow> elem_at ?meta' (j - 1) = elem_at meta j"
  proof (intro allI impI)
    fix j assume "?i < j \<and> j < ?s"
    then have "?i < j" "j < ?s" by simp_all
    then show "elem_at ?meta' (j - 1) = elem_at meta j" by (rule above)
  qed
  have f: "size_f ?meta' = size_f meta - 1" "capacity ?meta' = capacity meta"
    "typesize ?meta' = typesize meta" "addr ?meta' = addr meta"
    by simp_all
  from er f(1) sz f(2-) b a have
    "cvec_erase (Vec meta) index =
        Some ((case destructor meta of None \<Rightarrow> []
               | Some f \<Rightarrow> [Destructor_call (elem_at meta ?i)]),
              Vec ?meta') \<and>
      size_f ?meta' = size_f meta - 1 \<and>
      unat (size_f ?meta') = ?s - 1 \<and>
      capacity ?meta' = capacity meta \<and>
      typesize ?meta' = typesize meta \<and>
      addr ?meta' = addr meta \<and>
      (\<forall>j < ?i. elem_at ?meta' j = elem_at meta j) \<and>
      (\<forall>j. ?i < j \<and> j < ?s \<longrightarrow> elem_at ?meta' (j - 1) = elem_at meta j)"
    by (intro conjI)
  then show ?thesis by (intro exI)
qed

theorem erase_compacts_witness:
  "cvec_wf \<lparr> size_f = 4, capacity = 4, typesize = 2, destructor = Some (map (\<lambda>b. b + 1)),
             addr = 1056, data = [1, 2, 3, 4, 5, 6, 7, 8] \<rparr> \<and>
   (1 :: uint64) < size_f \<lparr> size_f = 4, capacity = 4, typesize = 2,
             destructor = Some (map (\<lambda>b. b + 1)), addr = 1056,
             data = [1, 2, 3, 4, 5, 6, 7, 8] \<rparr> \<and>
   cvec_erase (Vec \<lparr> size_f = 4, capacity = 4, typesize = 2,
             destructor = Some (map (\<lambda>b. b + 1)), addr = 1056,
             data = [1, 2, 3, 4, 5, 6, 7, 8] \<rparr>) 1
     = Some ([Destructor_call [3, 4]],
         Vec \<lparr> size_f = 3, capacity = 4, typesize = 2,
             destructor = Some (map (\<lambda>b. b + 1)), addr = 1056,
             data = [1, 2, 5, 6, 7, 8, 7, 8] \<rparr>) \<and>
   elem_at \<lparr> size_f = 3, capacity = 4, typesize = 2,
             destructor = Some (map (\<lambda>b. b + 1)), addr = 1056,
             data = [1, 2, 5, 6, 7, 8, 7, 8] \<rparr> 0 = [1, 2] \<and>
   elem_at \<lparr> size_f = 3, capacity = 4, typesize = 2,
             destructor = Some (map (\<lambda>b. b + 1)), addr = 1056,
             data = [1, 2, 5, 6, 7, 8, 7, 8] \<rparr> 1 = [5, 6] \<and>
   elem_at \<lparr> size_f = 3, capacity = 4, typesize = 2,
             destructor = Some (map (\<lambda>b. b + 1)), addr = 1056,
             data = [1, 2, 5, 6, 7, 8, 7, 8] \<rparr> 2 = [7, 8]"
proof -
  let ?m = "\<lparr> size_f = 4, capacity = 4, typesize = 2, destructor = Some (map (\<lambda>b. b + 1)),
             addr = 1056, data = [1, 2, 3, 4, 5, 6, 7, 8] \<rparr> :: cvec"
  let ?m' = "\<lparr> size_f = 3, capacity = 4, typesize = 2, destructor = Some (map (\<lambda>b. b + 1)),
             addr = 1056, data = [1, 2, 5, 6, 7, 8, 7, 8] \<rparr> :: cvec"
  have wf: "cvec_wf ?m" by (simp add: cvec_wf_def)
  have lt: "(1 :: uint64) < size_f ?m" by (simp add: word_less_nat_alt)
  have run: "cvec_erase (Vec ?m) 1 = Some ([Destructor_call [3, 4]], Vec ?m')"
    by (simp add: run_simps word_le_nat_alt)
  have old: "elem_at ?m 0 = [1, 2]" "elem_at ?m 2 = [5, 6]" "elem_at ?m 3 = [7, 8]"
    by (simp_all add: elem_at_def)
  from erase_compacts [OF wf lt] obtain meta' where
    e: "cvec_erase (Vec ?m) 1 =
        Some ((case destructor ?m of None \<Rightarrow> []
               | Some f \<Rightarrow> [Destructor_call (elem_at ?m (unat (1 :: uint64)))]), Vec meta')"
    and b: "\<forall>j < unat (1 :: uint64). elem_at meta' j = elem_at ?m j"
    and a: "\<forall>j. unat (1 :: uint64) < j \<and> j < unat (size_f ?m) \<longrightarrow>
              elem_at meta' (j - 1) = elem_at ?m j"
    by (elim exE conjE)
  from e run have m': "meta' = ?m'" by simp
  from b have "elem_at meta' 0 = elem_at ?m 0" by simp
  moreover from a [rule_format, of 2] have "elem_at meta' 1 = elem_at ?m 2" by simp
  moreover from a [rule_format, of 3] have "elem_at meta' 2 = elem_at ?m 3" by simp
  ultimately have "elem_at ?m' 0 = [1, 2]" "elem_at ?m' 1 = [5, 6]" "elem_at ?m' 2 = [7, 8]"
    unfolding m' old by simp_all
  with wf lt run show ?thesis by (intro conjI)
qed

section \<open>The growth law\<close>

text \<open>
  C6. On a well-formed block, under the conditions \<open>append_defined\<close>, \<open>cvec_push_back\<close>
  returns a block whose capacity differs from the old one only when \<open>size = capacity\<close>,
  and is then exactly 1 if the capacity was 0 and exactly twice the capacity otherwise (without
  wrapping). No append and no erasure decreases the capacity. Starting empty with capacity 0,
  \<open>n \<ge> 1\<close> successive appends (of readable elements at least one byte wide, with every
  \<open>realloc\<close> succeeding and \<open>32 + 2 * n * typesize\<close> below \<open>2 ^ 64\<close>) all return, and
  leave \<open>n\<close> elements in a buffer whose capacity is the power of two \<open>2 ^ k\<close> with
  \<open>2 ^ k / 2 < n \<le> 2 ^ k\<close>: the capacities met are \<open>1, 2, 4, 8, \<dots>\<close>, each reached by
  the append that finds the buffer full.
\<close>

theorem growth_law:
  "(cvec_wf meta \<and> append_defined env meta elem \<longrightarrow>
      (\<exists>evs meta'.
         cvec_push_back env (Vec meta) elem = Some (evs, Vec meta') \<and>
         capacity meta' =
           (if capacity meta = size_f meta
            then (if capacity meta = 0 then 1 else 2 * capacity meta)
            else capacity meta) \<and>
         unat (capacity meta') =
           (if capacity meta = size_f meta
            then (if capacity meta = 0 then 1 else 2 * unat (capacity meta))
            else unat (capacity meta)))) \<and>
   (apply_operation h x = Some h' \<longrightarrow> cvec_get_capacity h \<le> cvec_get_capacity h') \<and>
   (cvec_wf meta0 \<and> cvec_get_sz (Vec meta0) = 0 \<and> cvec_get_capacity (Vec meta0) = 0 \<and>
    typesize meta0 \<noteq> 0 \<and> xs \<noteq> [] \<and>
    list_all (\<lambda>(env, elem). realloc_result env \<noteq> 0 \<and>
                unat (typesize meta0) \<le> length elem) xs \<and>
    32 + 2 * length xs * unat (typesize meta0) < 2 ^ 64 \<longrightarrow>
      (\<exists>hn. run_operations (Vec meta0) (map (\<lambda>(env, elem). Push_back env elem) xs)
               = Some hn \<and>
            unat (cvec_get_sz hn) = length xs \<and>
            (\<exists>k. unat (cvec_get_capacity hn) = 2 ^ k \<and> length xs \<le> 2 ^ k \<and>
                  2 ^ k < 2 * length xs)))"
proof (intro conjI impI)
  assume a: "cvec_wf meta \<and> append_defined env meta elem"
  then have "\<exists>evs meta'. cvec_push_back env (Vec meta) elem = Some (evs, Vec meta')"
    by (intro push_back_defined) simp_all
  then obtain evs meta' where
    p: "cvec_push_back env (Vec meta) elem = Some (evs, Vec meta')"
    by blast
  from p push_back_capacity_word [OF p] push_back_capacity [OF p]
  have "cvec_push_back env (Vec meta) elem = Some (evs, Vec meta') \<and>
         capacity meta' =
           (if capacity meta = size_f meta
            then (if capacity meta = 0 then 1 else 2 * capacity meta)
            else capacity meta) \<and>
         unat (capacity meta') =
           (if capacity meta = size_f meta
            then (if capacity meta = 0 then 1 else 2 * unat (capacity meta))
            else unat (capacity meta))"
    by (intro conjI)
  then show "\<exists>evs meta'.
         cvec_push_back env (Vec meta) elem = Some (evs, Vec meta') \<and>
         capacity meta' =
           (if capacity meta = size_f meta
            then (if capacity meta = 0 then 1 else 2 * capacity meta)
            else capacity meta) \<and>
         unat (capacity meta') =
           (if capacity meta = size_f meta
            then (if capacity meta = 0 then 1 else 2 * unat (capacity meta))
            else unat (capacity meta))"
    by (intro exI)
next
  assume "apply_operation h x = Some h'"
  then show "cvec_get_capacity h \<le> cvec_get_capacity h'"
    by (rule apply_operation_capacity_mono)
next
  let ?run = "run_operations (Vec meta0) (map (\<lambda>(env, elem). Push_back env elem) xs)"
  assume a: "cvec_wf meta0 \<and> cvec_get_sz (Vec meta0) = 0 \<and>
    cvec_get_capacity (Vec meta0) = 0 \<and> typesize meta0 \<noteq> 0 \<and> xs \<noteq> [] \<and>
    list_all (\<lambda>(env, elem). realloc_result env \<noteq> 0 \<and>
                unat (typesize meta0) \<le> length elem) xs \<and>
    32 + 2 * length xs * unat (typesize meta0) < 2 ^ 64"
  then have z: "unat (size_f meta0) = 0 \<and> unat (capacity meta0) = 0"
    by (simp add: cvec_get_sz_def cvec_get_capacity_def)
  from a z have "\<exists>meta'. ?run = Some (Vec meta')"
    by (intro push_run_defined) simp_all
  then obtain metan where r: "?run = Some (Vec metan)" by blast
  from z have "(unat (size_f meta0) = 0 \<and> unat (capacity meta0) = 0) \<or>
      (\<exists>k. unat (capacity meta0) = 2 ^ k \<and> unat (size_f meta0) \<le> 2 ^ k \<and>
            2 ^ k < 2 * unat (size_f meta0))"
    by (rule disjI1)
  from doubling_run [OF this r] a z obtain k where
    k: "unat (size_f metan) = length xs"
      "unat (capacity metan) = 2 ^ k" "unat (size_f metan) \<le> 2 ^ k"
      "2 ^ k < 2 * unat (size_f metan)"
    by auto
  then have "unat (cvec_get_capacity (Vec metan)) = 2 ^ k \<and> length xs \<le> 2 ^ k \<and>
            2 ^ k < 2 * length xs"
    by (simp add: cvec_get_capacity_def)
  then have "\<exists>k. unat (cvec_get_capacity (Vec metan)) = 2 ^ k \<and> length xs \<le> 2 ^ k \<and>
            2 ^ k < 2 * length xs"
    by (intro exI)
  moreover from k have "unat (cvec_get_sz (Vec metan)) = length xs"
    by (simp add: cvec_get_sz_def)
  ultimately have "?run = Some (Vec metan) \<and>
      unat (cvec_get_sz (Vec metan)) = length xs \<and>
      (\<exists>k. unat (cvec_get_capacity (Vec metan)) = 2 ^ k \<and> length xs \<le> 2 ^ k \<and>
            2 ^ k < 2 * length xs)"
    using r by (intro conjI)
  then show "\<exists>hn. ?run = Some hn \<and> unat (cvec_get_sz hn) = length xs \<and>
      (\<exists>k. unat (cvec_get_capacity hn) = 2 ^ k \<and> length xs \<le> 2 ^ k \<and>
            2 ^ k < 2 * length xs)"
    by (intro exI)
qed

theorem growth_law_witness:
  "cvec_wf \<lparr> size_f = 2, capacity = 2, typesize = 1, destructor = None, addr = 1056,
            data = [1, 2] \<rparr> \<and>
   append_defined \<lparr> realloc_result = 4096, realloc_fresh = (\<lambda>_. 170) \<rparr>
     \<lparr> size_f = 2, capacity = 2, typesize = 1, destructor = None, addr = 1056,
       data = [1, 2] \<rparr> [3] \<and>
   cvec_push_back \<lparr> realloc_result = 4096, realloc_fresh = (\<lambda>_. 170) \<rparr>
     (Vec \<lparr> size_f = 2, capacity = 2, typesize = 1, destructor = None, addr = 1056,
            data = [1, 2] \<rparr>) [3]
     = Some ([Realloc_call 1024 36],
         Vec \<lparr> size_f = 3, capacity = 4, typesize = 1, destructor = None, addr = 4128,
               data = [1, 2, 3, 0] \<rparr>) \<and>
   unat (capacity \<lparr> size_f = 3, capacity = 4, typesize = 1, destructor = None, addr = 4128,
               data = [1, 2, 3, 0] \<rparr>)
     = 2 * unat (capacity \<lparr> size_f = 2, capacity = 2, typesize = 1, destructor = None,
               addr = 1056, data = [1, 2] \<rparr>) \<and>
   apply_operation
     (Vec \<lparr> size_f = 2, capacity = 2, typesize = 1, destructor = None, addr = 1056,
            data = [1, 2] \<rparr>) (Erase 0)
     = Some (Vec \<lparr> size_f = 1, capacity = 2, typesize = 1, destructor = None, addr = 1056,
            data = [2, 2] \<rparr>) \<and>
   cvec_get_capacity (Vec \<lparr> size_f = 2, capacity = 2, typesize = 1, destructor = None,
            addr = 1056, data = [1, 2] \<rparr>)
     \<le> cvec_get_capacity (Vec \<lparr> size_f = 1, capacity = 2, typesize = 1, destructor = None,
            addr = 1056, data = [2, 2] \<rparr>) \<and>
   cvec_wf \<lparr> size_f = 0, capacity = 0, typesize = 1, destructor = None, addr = 1056,
            data = [] \<rparr> \<and>
   run_operations
     (Vec \<lparr> size_f = 0, capacity = 0, typesize = 1, destructor = None, addr = 1056,
            data = [] \<rparr>)
     (map (\<lambda>(env, elem). Push_back env elem)
        [(\<lparr> realloc_result = 4096, realloc_fresh = (\<lambda>_. 170) \<rparr>, [1]),
         (\<lparr> realloc_result = 4096, realloc_fresh = (\<lambda>_. 170) \<rparr>, [2]),
         (\<lparr> realloc_result = 4096, realloc_fresh = (\<lambda>_. 170) \<rparr>, [3])])
     = Some (Vec \<lparr> size_f = 3, capacity = 4, typesize = 1, destructor = None, addr = 4128,
            data = [1, 2, 3, 0] \<rparr>) \<and>
   (\<exists>k. unat (cvec_get_capacity
              (Vec \<lparr> size_f = 3, capacity = 4, typesize = 1, destructor = None, addr = 4128,
                     data = [1, 2, 3, 0] \<rparr>)) = 2 ^ k \<and>
        (3 :: nat) \<le> 2 ^ k \<and> 2 ^ k < (6 :: nat))"
proof -
  let ?env = "\<lparr> realloc_result = 4096, realloc_fresh = (\<lambda>_. 170) \<rparr>"
  let ?m = "\<lparr> size_f = 2, capacity = 2, typesize = 1, destructor = None, addr = 1056,
            data = [1, 2] \<rparr> :: cvec"
  let ?grown = "\<lparr> size_f = 3, capacity = 4, typesize = 1, destructor = None, addr = 4128,
               data = [1, 2, 3, 0] \<rparr> :: cvec"
  let ?erased = "\<lparr> size_f = 1, capacity = 2, typesize = 1, destructor = None, addr = 1056,
            data = [2, 2] \<rparr> :: cvec"
  let ?empty = "\<lparr> size_f = 0, capacity = 0, typesize = 1, destructor = None, addr = 1056,
            data = [] \<rparr> :: cvec"
  let ?xs = "[(?env, [1 :: byte]), (?env, [2]), (?env, [3])]"
  let ?run = "run_operations (Vec ?empty) (map (\<lambda>(env, elem). Push_back env elem) ?xs)"
  note law = growth_law [where env = ?env and meta = ?m and elem = "[3]"
      and h = "Vec ?m" and x = "Erase 0" and h' = "Vec ?erased"
      and ?meta0.0 = ?empty and xs = ?xs]
  have wf: "cvec_wf ?m" "cvec_wf ?empty"
    by (simp_all add: cvec_wf_def)
  have ad: "append_defined ?env ?m [3]"
    by (simp add: append_defined_def)
  have push: "cvec_push_back ?env (Vec ?m) [3] = Some ([Realloc_call 1024 36], Vec ?grown)"
    by (simp add: run_simps)
  have erase: "apply_operation (Vec ?m) (Erase 0) = Some (Vec ?erased)"
    by (simp add: run_simps word_le_nat_alt)
  have run: "?run = Some (Vec ?grown)"
    by (simp add: run_simps)
  have start: "cvec_get_sz (Vec ?empty) = 0 \<and> cvec_get_capacity (Vec ?empty) = 0 \<and>
      typesize ?empty \<noteq> 0 \<and> ?xs \<noteq> [] \<and>
      list_all (\<lambda>(env, elem). realloc_result env \<noteq> 0 \<and>
                  unat (typesize ?empty) \<le> length elem) ?xs \<and>
      32 + 2 * length ?xs * unat (typesize ?empty) < 2 ^ 64"
    by (simp add: cvec_get_sz_def cvec_get_capacity_def)
  from law wf(1) ad have "\<exists>evs meta'.
      cvec_push_back ?env (Vec ?m) [3] = Some (evs, Vec meta') \<and>
      unat (capacity meta') = 2 * unat (capacity ?m)"
    by auto
  with push have grown: "unat (capacity ?grown) = 2 * unat (capacity ?m)"
    by auto
  from law erase have mono: "cvec_get_capacity (Vec ?m) \<le> cvec_get_capacity (Vec ?erased)"
    by blast
  from law wf(2) start
  have "\<exists>hn. ?run = Some hn \<and> unat (cvec_get_sz hn) = length ?xs \<and>
      (\<exists>k. unat (cvec_get_capacity hn) = 2 ^ k \<and> length ?xs \<le> 2 ^ k \<and>
            2 ^ k < 2 * length ?xs)"
    by blast
  with run have "\<exists>k. unat (cvec_get_capacity (Vec ?grown)) = 2 ^ k \<and> length ?xs \<le> 2 ^ k \<and>
            2 ^ k < 2 * length ?xs"
    by auto
  then have "\<exists>k. unat (cvec_get_capacity (Vec ?grown)) = 2 ^ k \<and>
        (3 :: nat) \<le> 2 ^ k \<and> 2 ^ k < (6 :: nat)"
    by (simp add: eval_nat_numeral)
  with wf ad push grown erase mono run show ?thesis
    by (intro conjI)
qed

section \<open>Teardown\<close>

text \<open>
  C7. On a buffer (a well-formed block) holding \<open>N\<close> live elements with a destructor set,
  \<open>cvec_free\<close> invokes the destructor exactly \<open>N\<close> times, on the elements at indices
  \<open>0, \<dots>, N - 1\<close> in this order, and releases the block after the last invocation; with
  no destructor set it invokes nothing and only releases the block.
\<close>

theorem free_runs_destructor_then_releases:
  assumes wf: "cvec_wf meta"
  shows "cvec_free (Vec meta) =
     Some ((case destructor meta of
              None \<Rightarrow> []
            | Some f \<Rightarrow> map (\<lambda>j. Destructor_call (elem_at meta j))
                          [0 ..< unat (size_f meta)])
           @ [Free_call (addr meta - sizeof_metadata)])"
proof (cases "destructor meta")
  case None
  then show ?thesis by (simp add: cvec_free_def)
next
  case (Some f)
  let ?s = "unat (size_f meta)" and ?t = "unat (typesize meta)"
  from wf have "?s * ?t \<le> unat (capacity meta) * ?t"
    by (intro mult_le_mono1) (simp add: cvec_wf_def)
  with wf have b1: "?s * ?t \<le> length (data meta)"
    by (simp add: cvec_wf_def)
  moreover from wf have "length (data meta) < 2 ^ 64"
    by (simp add: cvec_wf_def)
  ultimately have b2: "?s * ?t < 2 ^ 64"
    by (rule le_less_trans)
  note b = b1 b2
  from free_loop_trace [OF b, of 0 "data meta" f "[]"] obtain mem' where
    "free_loop f (typesize meta) (size_f meta) 0 (data meta) [] =
       Some (map (\<lambda>j. Destructor_call (take ?t (drop (j * ?t) (data meta)))) [0 ..< ?s], mem')"
    by auto
  with Some show ?thesis
    by (simp add: cvec_free_def Let_def elem_at_def)
qed

theorem free_runs_destructor_then_releases_witness:
  "cvec_wf \<lparr> size_f = 2, capacity = 4, typesize = 2, destructor = Some (map (\<lambda>b. b + 1)),
             addr = 1056, data = [5, 6, 7, 8, 0, 0, 0, 0] \<rparr> \<and>
   cvec_free (Vec \<lparr> size_f = 2, capacity = 4, typesize = 2,
             destructor = Some (map (\<lambda>b. b + 1)), addr = 1056,
             data = [5, 6, 7, 8, 0, 0, 0, 0] \<rparr>)
     = Some [Destructor_call [5, 6], Destructor_call [7, 8], Free_call 1024]"
proof -
  let ?m = "\<lparr> size_f = 2, capacity = 4, typesize = 2, destructor = Some (map (\<lambda>b. b + 1)),
             addr = 1056, data = [5, 6, 7, 8, 0, 0, 0, 0] \<rparr> :: cvec"
  have wf: "cvec_wf ?m" by (simp add: cvec_wf_def)
  from free_runs_destructor_then_releases [OF wf]
  have "cvec_free (Vec ?m) =
      Some [Destructor_call [5, 6], Destructor_call [7, 8], Free_call 1024]"
    by (simp add: elem_at_def sizeof_metadata_def upt_conv_Cons)
  with wf show ?thesis by (intro conjI)
qed

section \<open>Null handles\<close>

text \<open>
  C8. On a null handle every operation is benign: size, capacity and element size read 0,
  the emptiness test returns 1 (true), \<open>cvec_push_back\<close> returns null and calls nothing,
  \<open>cvec_erase\<close> and \<open>cvec_free\<close> call nothing and leave the handle null.
\<close>

theorem null_handle_benign:
  "cvec_get_sz Null = 0 \<and> cvec_get_capacity Null = 0 \<and> cvec_get_type_sz Null = 0 \<and>
   cvec_empty Null = 1 \<and>
   cvec_push_back env Null x = Some ([], Null) \<and>
   cvec_erase Null i = Some ([], Null) \<and>
   cvec_free Null = Some []"
  by (simp add: cvec_get_sz_def cvec_get_capacity_def cvec_get_type_sz_def cvec_empty_def
      cvec_push_back_def cvec_erase_def cvec_free_def)

section \<open>Erase out of range\<close>

text \<open>
  C9. For a non-null handle and an index at or beyond the size (the size itself included),
  \<open>cvec_erase\<close> does nothing: no callback is invoked and the block, with its size, capacity,
  element size and every byte, is returned as it was.
\<close>

theorem erase_out_of_range_noop:
  "size_f meta \<le> index \<Longrightarrow> cvec_erase (Vec meta) index = Some ([], Vec meta)"
  by (simp add: cvec_erase_def)

theorem erase_out_of_range_noop_witness:
  "size_f \<lparr> size_f = 1, capacity = 2, typesize = 1, destructor = Some (map (\<lambda>b. b + 1)),
             addr = 64, data = [7, 0] \<rparr> \<le> (1 :: uint64) \<and>
   cvec_erase (Vec \<lparr> size_f = 1, capacity = 2, typesize = 1, destructor = Some (map (\<lambda>b. b + 1)),
             addr = 64, data = [7, 0] \<rparr>) 1 =
     Some ([], Vec \<lparr> size_f = 1, capacity = 2, typesize = 1, destructor = Some (map (\<lambda>b. b + 1)),
             addr = 64, data = [7, 0] \<rparr>)"
  using erase_out_of_range_noop
    [of "\<lparr> size_f = 1, capacity = 2, typesize = 1, destructor = Some (map (\<lambda>b. b + 1)),
             addr = 64, data = [7, 0] \<rparr>" 1]
  by simp

section \<open>Append without growth\<close>

text \<open>
  C10. On a non-null handle with \<open>size < capacity\<close>, \<open>cvec_push_back\<close> does not
  reallocate: no allocator call is made, the handle returned has the address it was given,
  capacity and element size are unchanged, and every element stored before keeps its bytes.
  (The block is well formed and \<open>elem\<close> points to at least one element's worth of bytes.)
\<close>

theorem push_back_with_room_keeps_block:
  assumes wf: "cvec_wf meta" and lt: "size_f meta < capacity meta"
    and len: "unat (typesize meta) \<le> length elem"
  shows "\<exists>meta'. cvec_push_back env (Vec meta) elem = Some ([], Vec meta') \<and>
           addr meta' = addr meta \<and> capacity meta' = capacity meta \<and>
           typesize meta' = typesize meta \<and>
           (\<forall>i < unat (size_f meta). elem_at meta' i = elem_at meta i)"
proof -
  let ?s = "unat (size_f meta)" and ?t = "unat (typesize meta)"
  from push_back_room [OF wf lt len, of env] obtain mem where
    st: "store_bytes (data meta) (?s * ?t) (take ?t elem) = Some mem"
    and pb: "cvec_push_back env (Vec meta) elem =
             Some ([], Vec (meta \<lparr> data := mem, size_f := size_f meta + 1 \<rparr>))"
    by blast
  have "elem_at (meta \<lparr> data := mem, size_f := size_f meta + 1 \<rparr>) i = elem_at meta i"
    if i: "i < ?s" for i
  proof -
    from slots_ordered [OF i] have "i * ?t + ?t \<le> ?s * ?t" .
    then have "take ?t (drop (i * ?t) (take (?s * ?t) mem)) =
               take ?t (drop (i * ?t) (take (?s * ?t) (data meta)))"
      by (simp only: store_bytes_take [OF st])
    moreover have "take ?t (drop (i * ?t) (take (?s * ?t) xs)) = take ?t (drop (i * ?t) xs)"
      for xs :: "byte list"
      using \<open>i * ?t + ?t \<le> ?s * ?t\<close> by (simp add: drop_take min_def)
    ultimately show ?thesis by (simp add: elem_at_def)
  qed
  with pb show ?thesis by auto
qed

theorem push_back_with_room_keeps_block_witness:
  "cvec_wf \<lparr> size_f = 1, capacity = 2, typesize = 2, destructor = None, addr = 1056,
             data = [1, 2, 0, 0] \<rparr> \<and>
   size_f \<lparr> size_f = 1, capacity = 2, typesize = 2, destructor = None, addr = 1056,
             data = [1, 2, 0, 0] \<rparr>
     < capacity \<lparr> size_f = 1, capacity = 2, typesize = 2, destructor = None, addr = 1056,
             data = [1, 2, 0, 0] \<rparr> \<and>
   cvec_push_back \<lparr> realloc_result = 4096, realloc_fresh = (\<lambda>_. 170) \<rparr>
     (Vec \<lparr> size_f = 1, capacity = 2, typesize = 2, destructor = None, addr = 1056,
             data = [1, 2, 0, 0] \<rparr>) [3, 4]
     = Some ([], Vec \<lparr> size_f = 2, capacity = 2, typesize = 2, destructor = None, addr = 1056,
             data = [1, 2, 3, 4] \<rparr>) \<and>
   elem_at \<lparr> size_f = 2, capacity = 2, typesize = 2, destructor = None, addr = 1056,
             data = [1, 2, 3, 4] \<rparr> 0
     = elem_at \<lparr> size_f = 1, capacity = 2, typesize = 2, destructor = None, addr = 1056,
             data = [1, 2, 0, 0] \<rparr> 0"
proof -
  let ?m = "\<lparr> size_f = 1, capacity = 2, typesize = 2, destructor = None, addr = 1056,
             data = [1, 2, 0, 0] \<rparr> :: cvec"
  let ?env = "\<lparr> realloc_result = 4096, realloc_fresh = (\<lambda>_. 170) \<rparr>"
  have wf: "cvec_wf ?m" by (simp add: cvec_wf_def)
  have lt: "size_f ?m < capacity ?m" by simp
  have len: "unat (typesize ?m) \<le> length [3, 4 :: byte]" by simp
  have run: "cvec_push_back ?env (Vec ?m) [3, 4] =
      Some ([], Vec \<lparr> size_f = 2, capacity = 2, typesize = 2, destructor = None, addr = 1056,
             data = [1, 2, 3, 4] \<rparr>)"
    by (simp add: run_simps)
  from push_back_with_room_keeps_block [OF wf lt len, of ?env] run
  have "elem_at \<lparr> size_f = 2, capacity = 2, typesize = 2, destructor = None, addr = 1056,
             data = [1, 2, 3, 4] \<rparr> 0 = elem_at ?m 0"
    by auto
  with wf lt run show ?thesis by simp
qed

end
